theory Spec2Isabelle
  imports Main "HOL-Library.AList" "HOL-Library.Char_ord" "HOL-Library.List_Lexorder"
    "HOL-Library.FSet"
begin

section \<open>The requirement set of pip: data model\<close>

text \<open>
  This theory embeds \<^verbatim>\<open>pip/req/req_set.py\<close>: the classes \<^verbatim>\<open>Requirements\<close> and
  \<^verbatim>\<open>RequirementSet\<close> with \<^verbatim>\<open>add_requirement\<close>, \<^verbatim>\<open>get_requirement\<close>,
  \<^verbatim>\<open>_to_install\<close> and \<^verbatim>\<open>install\<close>.

  \<^verbatim>\<open>InstallRequirement\<close> objects are mutable and are compared and hashed by identity:
  the same object is referenced from the registry, from dependency lists and from the
  set of scheduled requirements, and \<^verbatim>\<open>add_requirement\<close> updates the registered object
  in place. Objects therefore live in an explicit store, addressed by references.
\<close>

type_synonym ref = nat

text \<open>
  A \<^verbatim>\<open>Link\<close>: the location \<^verbatim>\<open>link.url\<close> it stands for, and what this module reads of
  it, \<^verbatim>\<open>link.path\<close>, \<^verbatim>\<open>link.is_wheel\<close> and \<^verbatim>\<open>link.filename\<close>. A link object is always
  truthy; an absent link is \<^verbatim>\<open>None\<close>.
\<close>

record Link =
  url :: string
  path :: string
  is_wheel :: bool
  filename :: string

text \<open>
  The value of \<^verbatim>\<open>extras\<close>. A requirement carries a set of strings; a requirement
  without \<^verbatim>\<open>req\<close> carries the empty tuple, and line 193 leaves a sorted tuple on a
  promoted object. Python's \<^verbatim>\<open>==\<close> holds between two tuples with the same items in
  the same order and between two sets with the same members, and never between a
  tuple and a set: it is the equality of this type. \<open>elements\<close> is \<^verbatim>\<open>set(extras)\<close>.
\<close>

datatype extras_value =
  ExtrasTuple "string list"
  | ExtrasSet "string fset"

fun elements :: "extras_value \<Rightarrow> string set" where
  "elements (ExtrasTuple xs) = set xs"
| "elements (ExtrasSet A) = fset A"

text \<open>
  The attributes of an \<^verbatim>\<open>InstallRequirement\<close> that this module reads or writes.
  \<^verbatim>\<open>name\<close> is \<^verbatim>\<open>None\<close> or a string; \<^verbatim>\<open>specifier\<close> stands for \<^verbatim>\<open>req.specifier\<close>, compared
  with \<^verbatim>\<open>==\<close> only; \<^verbatim>\<open>match_markers\<close> is the method of that name, a function of the
  requested extras; \<^verbatim>\<open>satisfied_by\<close> and \<^verbatim>\<open>conflicts_with\<close> are \<^verbatim>\<open>None\<close> or an installed
  distribution (always truthy), named by a string here.
\<close>

record InstallRequirement =
  name :: "string option"
  specifier :: string
  extras :: extras_value
  match_markers :: "string list option \<Rightarrow> bool"
  link :: "Link option"
  constraint :: bool
  is_direct :: bool
  satisfied_by :: "string option"
  conflicts_with :: "string option"
  req_use_user_site :: bool
  req_target_dir :: "string option"
  req_pycompile :: bool

text \<open>
  Class \<^verbatim>\<open>Requirements\<close>: the list \<^verbatim>\<open>_keys\<close> in insertion order and the dictionary
  \<^verbatim>\<open>_dict\<close>.
\<close>

record Requirements =
  r_keys :: "string list"
  r_dict :: "string \<rightharpoonup> ref"

definition Requirements_init :: Requirements where
  "Requirements_init = \<lparr>r_keys = [], r_dict = Map.empty\<rparr>"

definition contains :: "Requirements \<Rightarrow> string \<Rightarrow> bool" where
  "contains R item = (item \<in> set (r_keys R))"

definition setitem :: "Requirements \<Rightarrow> string \<Rightarrow> ref \<Rightarrow> Requirements" where
  "setitem R key v =
     \<lparr>r_keys = (if key \<notin> set (r_keys R) then r_keys R @ [key] else r_keys R),
      r_dict = (r_dict R)(key \<mapsto> v)\<rparr>"

text \<open>\<^verbatim>\<open>__getitem__\<close> raises \<^verbatim>\<open>KeyError\<close> on a missing key: the result \<open>None\<close>.\<close>

definition getitem :: "Requirements \<Rightarrow> string \<Rightarrow> ref option" where
  "getitem R key = r_dict R key"

text \<open>
  \<^verbatim>\<open>values()\<close> is \<^verbatim>\<open>[self._dict[key] for key in self._keys]\<close>; it raises
  \<^verbatim>\<open>KeyError\<close> (\<open>None\<close>) when a key has no entry.
\<close>

fun lookup_all :: "(string \<rightharpoonup> ref) \<Rightarrow> string list \<Rightarrow> ref list option" where
  "lookup_all d [] = Some []"
| "lookup_all d (k # ks) =
     (case d k of None \<Rightarrow> None
      | Some v \<Rightarrow> (case lookup_all d ks of None \<Rightarrow> None | Some vs \<Rightarrow> Some (v # vs)))"

definition values_of :: "Requirements \<Rightarrow> ref list option" where
  "values_of R = lookup_all (r_dict R) (r_keys R)"

text \<open>
  The state of a \<^verbatim>\<open>RequirementSet\<close>, together with the object store \<open>heap\<close> of the
  \<^verbatim>\<open>InstallRequirement\<close> objects it refers to. \<^verbatim>\<open>_dependencies\<close> is a
  \<^verbatim>\<open>defaultdict(list)\<close> keyed by object: an insertion-ordered association list whose
  lookup yields the empty list for a missing key.
\<close>

record RequirementSet =
  heap :: "ref \<Rightarrow> InstallRequirement"
  requirements :: Requirements
  requirement_aliases :: "string \<rightharpoonup> string"
  unnamed_requirements :: "ref list"
  reqs_to_cleanup :: "ref list"
  dependencies :: "(ref \<times> ref list) list"
  use_user_site :: bool
  target_dir :: "string option"
  pycompile :: bool
  successfully_installed :: "ref list"

definition deps_of :: "(ref \<times> ref list) list \<Rightarrow> ref \<Rightarrow> ref list" where
  "deps_of d r = (case map_of d r of None \<Rightarrow> [] | Some cs \<Rightarrow> cs)"

text \<open>\<^verbatim>\<open>self._dependencies[parent_req].append(install_req)\<close>\<close>

definition deps_append :: "(ref \<times> ref list) list \<Rightarrow> ref \<Rightarrow> ref \<Rightarrow> (ref \<times> ref list) list" where
  "deps_append d parent_req install_req = AList.update parent_req (deps_of d parent_req @ [install_req]) d"

text \<open>\<^verbatim>\<open>str.lower()\<close> on ASCII strings, which project names are.\<close>

definition lower_char :: "char \<Rightarrow> char" where
  "lower_char c =
     (let n = (of_char c :: nat) in if 65 \<le> n \<and> n \<le> 90 then char_of (n + 32) else c)"

definition lower :: "string \<Rightarrow> string" where
  "lower s = map lower_char s"

text \<open>
  \<^verbatim>\<open>get_requirement\<close>: the name as given, then its lower-case form, each first as a
  key of the registry and then as an alias. \<open>None\<close> is \<^verbatim>\<open>KeyError\<close>, raised at the
  end of the loop or by \<^verbatim>\<open>self.requirements[...]\<close> on a key without entry.
\<close>

fun get_requirement_loop :: "RequirementSet \<Rightarrow> string list \<Rightarrow> ref option" where
  "get_requirement_loop self [] = None"
| "get_requirement_loop self (nm # rest) =
     (if contains (requirements self) nm then getitem (requirements self) nm
      else (case requirement_aliases self nm of
              Some real_name \<Rightarrow> getitem (requirements self) real_name
            | None \<Rightarrow> get_requirement_loop self rest))"

definition get_requirement :: "RequirementSet \<Rightarrow> string \<Rightarrow> ref option" where
  "get_requirement self project_name =
     get_requirement_loop self [project_name, lower project_name]"

section \<open>Admission: \<^verbatim>\<open>add_requirement\<close>\<close>

text \<open>
  The exceptions of this module: the \<^verbatim>\<open>InstallationError\<close>s of \<^verbatim>\<open>add_requirement\<close>
  by their message, \<^verbatim>\<open>KeyError\<close>, and an exception raised by an operation of an
  \<^verbatim>\<open>InstallRequirement\<close> during \<^verbatim>\<open>install\<close>, by the operation and the object.
\<close>

datatype error =
  InvalidWheelFilename
  | UnsupportedWheel
  | DoubleRequirement
  | ConstraintConflict
  | KeyError
  | UninstallFailed ref
  | InstallFailed ref
  | RollbackFailed ref
  | CommitFailed ref
  | RemoveFailed ref

text \<open>
  The wheel check of lines 142-148. \<^verbatim>\<open>pip.wheel.Wheel\<close> is outside this module and is
  a parameter: \<open>Wheel fn = None\<close> when the constructor rejects the file name, else
  \<open>Some b\<close> with \<open>b\<close> the value of \<^verbatim>\<open>wheel.supported()\<close> on this platform.
\<close>

definition wheel_check :: "(string \<Rightarrow> bool option) \<Rightarrow> Link option \<Rightarrow> error option" where
  "wheel_check Wheel l =
     (case l of None \<Rightarrow> None
      | Some lk \<Rightarrow>
          if is_wheel lk then
            (case Wheel (filename lk) of
               None \<Rightarrow> Some InvalidWheelFilename
             | Some supported \<Rightarrow> if \<not> supported then Some UnsupportedWheel else None)
          else None)"

text \<open>Lines 150-153: the settings of the set are written onto the incoming object.\<close>

definition propagate :: "RequirementSet \<Rightarrow> ref \<Rightarrow> string option \<Rightarrow> RequirementSet" where
  "propagate self install_req parent_req_name =
     self\<lparr>heap := (heap self)(install_req := (heap self install_req)
        \<lparr>is_direct := (parent_req_name = None),
         req_use_user_site := use_user_site self,
         req_target_dir := target_dir self,
         req_pycompile := pycompile self\<rparr>)\<rparr>"

text \<open>
  Lines 203-206: with a truthy parent name the parent is looked up (a \<^verbatim>\<open>KeyError\<close>
  propagates, after the mutations made so far) and the canonical object is appended to
  its dependencies.
\<close>

definition record_edge ::
  "RequirementSet \<Rightarrow> string option \<Rightarrow> ref \<Rightarrow> ref list \<Rightarrow>
     (error \<times> RequirementSet) + (ref list \<times> RequirementSet)" where
  "record_edge self parent_req_name install_req result =
     (case parent_req_name of
        None \<Rightarrow> Inr (result, self)
      | Some p \<Rightarrow>
          if p = [] then Inr (result, self)
          else (case get_requirement self p of
                  None \<Rightarrow> Inl (KeyError, self)
                | Some parent_req \<Rightarrow>
                    Inr (result,
                         self\<lparr>dependencies :=
                                deps_append (dependencies self) parent_req install_req\<rparr>)))"

text \<open>
  \<^verbatim>\<open>tuple(sorted(set(existing_req.extras).union(set(install_req.extras))))\<close>; Python
  orders strings lexicographically by character code, as the order on \<open>string\<close> does.
\<close>

definition merged_extras :: "extras_value \<Rightarrow> extras_value \<Rightarrow> extras_value" where
  "merged_extras ex_extras in_extras =
     ExtrasTuple (sorted_list_of_set (elements ex_extras \<union> elements in_extras))"

text \<open>
  The link test of lines 183-184:
  \<^verbatim>\<open>install_req.link and not (existing_req.link and
  install_req.link.path == existing_req.link.path)\<close>. Of the two links it compares
  the paths only.
\<close>

definition link_conflict :: "Link option \<Rightarrow> Link option \<Rightarrow> bool" where
  "link_conflict new_link old_link =
     (case new_link of
        None \<Rightarrow> False
      | Some l \<Rightarrow> \<not> (case old_link of None \<Rightarrow> False | Some l' \<Rightarrow> path l = path l'))"

text \<open>
  Lines 160-206, the branch of a truthy name \<open>n\<close>; \<open>self\<close> is the state after the
  settings were written onto the incoming object. The test of line 166,
  \<^verbatim>\<open>existing_req.extras == install_req.extras\<close>, is the equality of \<open>extras_value\<close>:
  false between the tuple of a promoted object and the set of a requirement.
\<close>

definition add_named ::
  "RequirementSet \<Rightarrow> ref \<Rightarrow> string \<Rightarrow> string option \<Rightarrow>
     (error \<times> RequirementSet) + (ref list \<times> RequirementSet)" where
  "add_named self install_req n parent_req_name =
     (let existing_req = get_requirement self n;
          new = heap self install_req
      in
      if parent_req_name = None \<and>
         (case existing_req of
            None \<Rightarrow> False
          | Some ex \<Rightarrow>
              \<not> constraint (heap self ex) \<and>
              extras (heap self ex) = extras new \<and>
              \<not> specifier (heap self ex) = specifier new)
      then Inl (DoubleRequirement, self)
      else
       (case existing_req of
          None \<Rightarrow>
            (let self1 = self\<lparr>requirements := setitem (requirements self) n install_req\<rparr>;
                 self2 = (if lower n \<noteq> n
                          then self1\<lparr>requirement_aliases :=
                                       (requirement_aliases self1)(lower n \<mapsto> n)\<rparr>
                          else self1)
             in record_edge self2 parent_req_name install_req [install_req])
        | Some ex \<Rightarrow>
            (let old = heap self ex in
             if \<not> constraint new \<and> constraint old then
               (if link_conflict (link new) (link old)
                then Inl (ConstraintConflict,
                          self\<lparr>reqs_to_cleanup := reqs_to_cleanup self @ [install_req]\<rparr>)
                else
                  (let self1 = self\<lparr>heap := (heap self)(ex := old
                                   \<lparr>constraint := False,
                                    extras := merged_extras (extras old) (extras new)\<rparr>)\<rparr>
                   in record_edge self1 parent_req_name ex [ex]))
             else record_edge self parent_req_name ex [])))"

text \<open>
  \<^verbatim>\<open>add_requirement\<close>. An exception leaves the mutations made before it in place, so an
  error is returned with the state it leaves behind. The test \<^verbatim>\<open>if not name\<close> sends
  \<^verbatim>\<open>None\<close> and the empty string to the unnamed branch.
\<close>

definition add_requirement ::
  "(string \<Rightarrow> bool option) \<Rightarrow> RequirementSet \<Rightarrow> ref \<Rightarrow> string option \<Rightarrow> string list option \<Rightarrow>
     (error \<times> RequirementSet) + (ref list \<times> RequirementSet)" where
  "add_requirement Wheel self0 install_req parent_req_name extras_requested =
     (if \<not> match_markers (heap self0 install_req) extras_requested then Inr ([], self0)
      else (case wheel_check Wheel (link (heap self0 install_req)) of
        Some e \<Rightarrow> Inl (e, self0)
      | None \<Rightarrow>
       (let self = propagate self0 install_req parent_req_name;
            unnamed = Inr ([install_req],
               self\<lparr>unnamed_requirements := unnamed_requirements self @ [install_req]\<rparr>)
        in
        case name (heap self0 install_req) of
          None \<Rightarrow> unnamed
        | Some n \<Rightarrow>
            if n = [] then unnamed
            else add_named self install_req n parent_req_name)))"

section \<open>Scheduling: \<^verbatim>\<open>_to_install\<close>\<close>

text \<open>
  The closure \<^verbatim>\<open>schedule\<close> of \<^verbatim>\<open>_to_install\<close> updates the list \<^verbatim>\<open>order\<close> and the set
  \<^verbatim>\<open>ordered_reqs\<close>; both are passed and returned here. \<open>schedule_each\<close> is the loop
  \<^verbatim>\<open>for dep in ...: schedule(dep)\<close>. Reading \<^verbatim>\<open>self._dependencies[req]\<close> stores an
  empty list under a key that was missing, which changes no later lookup and is
  not recorded. Python's bound on the recursion depth is outside the model.
\<close>

function schedule :: "RequirementSet \<Rightarrow> ref \<Rightarrow> ref list \<times> ref set \<Rightarrow> ref list \<times> ref set"
  and schedule_each ::
    "RequirementSet \<Rightarrow> ref list \<Rightarrow> ref list \<times> ref set \<Rightarrow> ref list \<times> ref set" where
  "schedule self req (order, ordered_reqs) =
     (if satisfied_by (heap self req) \<noteq> None \<or> req \<in> ordered_reqs then (order, ordered_reqs)
      else if constraint (heap self req) then (order, ordered_reqs)
      else (case schedule_each self (deps_of (dependencies self) req)
                   (order, insert req ordered_reqs) of
              (order', ordered_reqs') \<Rightarrow> (order' @ [req], ordered_reqs')))"
| "schedule_each self [] s = s"
| "schedule_each self (dep # deps) s = schedule_each self deps (schedule self dep s)"
  by pat_completeness auto

text \<open>
  \<^verbatim>\<open>_to_install\<close>: \<^verbatim>\<open>schedule\<close> on every value of the registry, in the order of its keys,
  starting from an empty order and an empty set. \<^verbatim>\<open>values()\<close> may raise \<^verbatim>\<open>KeyError\<close>.
\<close>

definition to_install :: "RequirementSet \<Rightarrow> error + ref list" where
  "to_install self =
     (case values_of (requirements self) of
        None \<Rightarrow> Inl KeyError
      | Some vs \<Rightarrow> Inr (fst (schedule_each self vs ([], {}))))"

section \<open>Installation: \<^verbatim>\<open>install\<close>\<close>

text \<open>
  The operations of an \<^verbatim>\<open>InstallRequirement\<close> that \<^verbatim>\<open>install\<close> calls belong to other
  modules. A call is recorded as an event; what it does is a parameter: whether it
  raises and, for \<^verbatim>\<open>install\<close>, the value of \<^verbatim>\<open>requirement.install_succeeded\<close> after the
  call.
\<close>

datatype event =
  Uninstall ref
  | Install ref
  | Rollback ref
  | Commit ref
  | RemoveTemporarySource ref

record World =
  uninstall_raises :: "ref \<Rightarrow> bool"
  install_raises :: "ref \<Rightarrow> bool"
  install_succeeded :: "ref \<Rightarrow> bool"
  rollback_raises :: "ref \<Rightarrow> bool"
  commit_raises :: "ref \<Rightarrow> bool"
  remove_temporary_source_raises :: "ref \<Rightarrow> bool"

text \<open>
  The body of the loop of \<^verbatim>\<open>install\<close> (lines 291-315) for one requirement: the exception
  that leaves it, if any, and the calls made.
\<close>

definition install_one :: "World \<Rightarrow> RequirementSet \<Rightarrow> ref \<Rightarrow> error option \<times> event list" where
  "install_one w self requirement =
     (let conflicts = (conflicts_with (heap self requirement) \<noteq> None);
          succeeded = install_succeeded w requirement
      in
      if conflicts \<and> uninstall_raises w requirement
      then (Some (UninstallFailed requirement), [Uninstall requirement])
      else
       (let tr = (if conflicts then [Uninstall requirement] else []) @ [Install requirement]
        in
        if install_raises w requirement then
          (if conflicts \<and> \<not> succeeded then
             (if rollback_raises w requirement
              then (Some (RollbackFailed requirement), tr @ [Rollback requirement])
              else (Some (InstallFailed requirement), tr @ [Rollback requirement]))
           else (Some (InstallFailed requirement), tr))
        else
          (if conflicts \<and> succeeded \<and> commit_raises w requirement
           then (Some (CommitFailed requirement), tr @ [Commit requirement])
           else
            (let tr' = tr @ (if conflicts \<and> succeeded then [Commit requirement] else [])
                          @ [RemoveTemporarySource requirement]
             in
             if remove_temporary_source_raises w requirement
             then (Some (RemoveFailed requirement), tr')
             else (None, tr')))))"

text \<open>The loop \<^verbatim>\<open>for requirement in to_install\<close>: an exception ends it.\<close>

fun install_loop :: "World \<Rightarrow> RequirementSet \<Rightarrow> ref list \<Rightarrow> error option \<times> event list" where
  "install_loop w self [] = (None, [])"
| "install_loop w self (requirement # rest) =
     (case install_one w self requirement of
        (Some e, tr) \<Rightarrow> (Some e, tr)
      | (None, tr) \<Rightarrow>
          (case install_loop w self rest of (res, tr') \<Rightarrow> (res, tr @ tr')))"

text \<open>
  \<^verbatim>\<open>install\<close>: the exception raised, if any, the calls made, and the state, in which
  \<^verbatim>\<open>successfully_installed\<close> is assigned only when the loop has finished.
\<close>

definition install :: "World \<Rightarrow> RequirementSet \<Rightarrow> error option \<times> event list \<times> RequirementSet" where
  "install w self =
     (case to_install self of
        Inl e \<Rightarrow> (Some e, [], self)
      | Inr order \<Rightarrow>
          (case install_loop w self order of
             (Some e, tr) \<Rightarrow> (Some e, tr, self)
           | (None, tr) \<Rightarrow> (None, tr, self\<lparr>successfully_installed := order\<rparr>)))"

section \<open>Vocabulary of the properties\<close>

text \<open>
  The invariant of class \<^verbatim>\<open>Requirements\<close>: every key of \<^verbatim>\<open>_keys\<close> has an entry in
  \<^verbatim>\<open>_dict\<close>. The constructor establishes it and \<^verbatim>\<open>__setitem__\<close>, the only writer,
  keeps it.
\<close>

definition registry_ok :: "Requirements \<Rightarrow> bool" where
  "registry_ok R = (set (r_keys R) \<subseteq> dom (r_dict R))"

text \<open>
  \<^verbatim>\<open>schedule\<close> returns at once, adding nothing, on a requirement that is satisfied or
  is a constraint.
\<close>

definition skips :: "RequirementSet \<Rightarrow> ref \<Rightarrow> bool" where
  "skips self r = (satisfied_by (heap self r) \<noteq> None \<or> constraint (heap self r))"

text \<open>
  The recorded edges from a requirement to its dependencies, and those among them
  that lead to a requirement \<^verbatim>\<open>schedule\<close> does not skip.
\<close>

definition edges :: "RequirementSet \<Rightarrow> (ref \<times> ref) set" where
  "edges self = {(p, c). c \<in> set (deps_of (dependencies self) p)}"

definition live_edges :: "RequirementSet \<Rightarrow> (ref \<times> ref) set" where
  "live_edges self = {(p, c). c \<in> set (deps_of (dependencies self) p) \<and> \<not> skips self c}"

text \<open>\<open>c\<close> stands in \<open>xs\<close> before the first \<open>p\<close>.\<close>

definition precedes :: "ref list \<Rightarrow> ref \<Rightarrow> ref \<Rightarrow> bool" where
  "precedes xs c p = (p \<in> set xs \<and> c \<in> set (takeWhile (\<lambda>x. x \<noteq> p) xs))"

text \<open>
  What a call of \<^verbatim>\<open>schedule\<close> does to \<^verbatim>\<open>order\<close> and \<^verbatim>\<open>ordered_reqs\<close>: it appends new,
  distinct requirements, none of them skipped, and adds the same to the set.
\<close>

definition extends :: "RequirementSet \<Rightarrow> ref list \<times> ref set \<Rightarrow> ref list \<times> ref set \<Rightarrow> bool" where
  "extends self s s' =
     (\<exists>new. s' = (fst s @ new, snd s \<union> set new) \<and> set new \<inter> snd s = {} \<and> distinct new \<and>
            (\<forall>x \<in> set new. \<not> skips self x))"

text \<open>
  An order is closed when every dependency of a member that is not skipped stands
  earlier in it.
\<close>

definition topo :: "RequirementSet \<Rightarrow> ref list \<Rightarrow> bool" where
  "topo self xs =
     (\<forall>i < length xs. \<forall>c \<in> set (deps_of (dependencies self) (xs ! i)).
        \<not> skips self c \<longrightarrow> c \<in> set (take i xs))"

text \<open>The requirement an event is a call on.\<close>

fun subject :: "event \<Rightarrow> ref" where
  "subject (Uninstall r) = r"
| "subject (Install r) = r"
| "subject (Rollback r) = r"
| "subject (Commit r) = r"
| "subject (RemoveTemporarySource r) = r"

text \<open>
  The two parts of what \<^verbatim>\<open>add_requirement\<close> yields: the list returned or the exception
  raised, and the state left behind.
\<close>

definition outcome ::
  "(error \<times> RequirementSet) + (ref list \<times> RequirementSet) \<Rightarrow> error + ref list" where
  "outcome res = (case res of Inl (e, s) \<Rightarrow> Inl e | Inr (xs, s) \<Rightarrow> Inr xs)"

definition result_state ::
  "(error \<times> RequirementSet) + (ref list \<times> RequirementSet) \<Rightarrow> RequirementSet" where
  "result_state res = (case res of Inl (e, s) \<Rightarrow> s | Inr (xs, s) \<Rightarrow> s)"

section \<open>Example states\<close>

text \<open>
  A named requirement with the empty set of extras, no link and no installed
  distribution, and the
  state the constructor of \<^verbatim>\<open>RequirementSet\<close> builds (lines 71-102) over a store.
\<close>

definition requirement :: "string \<Rightarrow> InstallRequirement" where
  "requirement n =
     \<lparr>name = Some n, specifier = [], extras = ExtrasSet {||}, match_markers = (\<lambda>_. True), link = None,
      constraint = False, is_direct = True, satisfied_by = None, conflicts_with = None,
      req_use_user_site = False, req_target_dir = None, req_pycompile = True\<rparr>"

definition RequirementSet_init ::
  "(ref \<Rightarrow> InstallRequirement) \<Rightarrow> bool \<Rightarrow> string option \<Rightarrow> bool \<Rightarrow> RequirementSet" where
  "RequirementSet_init h user_site target compile =
     \<lparr>heap = h, requirements = Requirements_init, requirement_aliases = Map.empty,
      unnamed_requirements = [], reqs_to_cleanup = [], dependencies = [],
      use_user_site = user_site, target_dir = target, pycompile = compile,
      successfully_installed = []\<rparr>"

text \<open>A set with the given registry entries, in order, and the given dependency lists.\<close>

definition graph_set ::
  "(ref \<Rightarrow> InstallRequirement) \<Rightarrow> (string \<times> ref) list \<Rightarrow> (ref \<times> ref list) list \<Rightarrow>
     RequirementSet" where
  "graph_set h reg deps =
     (RequirementSet_init h False None True)
       \<lparr>requirements := \<lparr>r_keys = map fst reg, r_dict = map_of reg\<rparr>, dependencies := deps\<rparr>"

text \<open>The cycle a \<open>\<rightarrow>\<close> b \<open>\<rightarrow>\<close> c \<open>\<rightarrow>\<close> a, where c is also a dependency of a.\<close>

definition cycle_set :: RequirementSet where
  "cycle_set =
     graph_set (\<lambda>r. requirement (if r = 0 then ''a'' else if r = 1 then ''b'' else ''c''))
       [(''a'', 0), (''b'', 1), (''c'', 2)]
       [(0, [1, 2]), (1, [2]), (2, [0])]"

text \<open>
  p depends on s, which is already installed, and on k, which is still a constraint.
\<close>

definition skip_set :: RequirementSet where
  "skip_set =
     graph_set (\<lambda>r. if r = 0 then requirement ''p''
                     else if r = 1 then (requirement ''s'')\<lparr>satisfied_by := Some ''s 1.0''\<rparr>
                     else (requirement ''k'')\<lparr>constraint := True\<rparr>)
       [(''p'', 0), (''s'', 1), (''k'', 2)]
       [(0, [1, 2])]"

text \<open>
  p depends on s, which is already installed, and s depends on c, which is not.
\<close>

definition chain_set :: RequirementSet where
  "chain_set =
     graph_set (\<lambda>r. if r = 0 then requirement ''p''
                     else if r = 1 then (requirement ''s'')\<lparr>satisfied_by := Some ''s 1.0''\<rparr>
                     else requirement ''c'')
       [(''p'', 0), (''s'', 1), (''c'', 2)]
       [(0, [1]), (1, [2])]"

text \<open>
  Five requirements without a cycle: a needs b and c, both need d, and d needs e.
\<close>

definition dag_set :: RequirementSet where
  "dag_set =
     graph_set (\<lambda>r. requirement (if r = 0 then ''a'' else if r = 1 then ''b''
                                  else if r = 2 then ''c'' else if r = 3 then ''d'' else ''e''))
       [(''a'', 0), (''b'', 1), (''c'', 2), (''d'', 3), (''e'', 4)]
       [(0, [1, 2]), (1, [3]), (2, [3]), (3, [4])]"

text \<open>
  Three requirements without dependencies; a replaces an installed distribution.
\<close>

definition install_set :: RequirementSet where
  "install_set =
     graph_set (\<lambda>r. if r = 0 then requirement ''x''
                     else if r = 1 then (requirement ''a'')\<lparr>conflicts_with := Some ''a 0.9''\<rparr>
                     else requirement ''z'')
       [(''x'', 0), (''a'', 1), (''z'', 2)]
       []"

text \<open>
  A world in which no call raises and every \<^verbatim>\<open>install\<close> reports success, and one in which
  \<^verbatim>\<open>install\<close> raises, without reporting success, for the requirement \<open>bad\<close>.
\<close>

definition working_world :: World where
  "working_world =
     \<lparr>uninstall_raises = (\<lambda>_. False), install_raises = (\<lambda>_. False),
      install_succeeded = (\<lambda>_. True), rollback_raises = (\<lambda>_. False),
      commit_raises = (\<lambda>_. False), remove_temporary_source_raises = (\<lambda>_. False)\<rparr>"

definition failing_world :: "ref \<Rightarrow> World" where
  "failing_world bad =
     working_world\<lparr>install_raises := (\<lambda>r. r = bad), install_succeeded := (\<lambda>r. r \<noteq> bad)\<rparr>"

text \<open>A platform on which every wheel file name is valid and supported.\<close>

definition any_wheel :: "string \<Rightarrow> bool option" where
  "any_wheel fn = Some True"

text \<open>
  pkg>=1.0 is registered as a constraint, x as a requirement; the object 2 is a
  requirement pkg>=1.0 with extras, not yet admitted.
\<close>

definition promo_set :: RequirementSet where
  "promo_set =
     graph_set (\<lambda>r. if r = 0 then (requirement ''pkg'')
                          \<lparr>specifier := ''>=1.0'', extras := ExtrasSet {|''tests''|}, constraint := True\<rparr>
                     else if r = 1 then requirement ''x''
                     else (requirement ''pkg'')
                          \<lparr>specifier := ''>=1.0'', extras := ExtrasSet {|''extra'', ''docs''|}\<rparr>)
       [(''pkg'', 0), (''x'', 1)]
       []"

text \<open>
  pkg==1.0 and x are registered requirements; the object 2 is pkg==2.0, not yet
  admitted.
\<close>

definition dup_set :: RequirementSet where
  "dup_set =
     graph_set (\<lambda>r. if r = 0 then (requirement ''pkg'')\<lparr>specifier := ''==1.0''\<rparr>
                     else if r = 1 then requirement ''x''
                     else (requirement ''pkg'')\<lparr>specifier := ''==2.0''\<rparr>)
       [(''pkg'', 0), (''x'', 1)]
       []"

text \<open>A link to a source archive at the given location, with the given path.\<close>

definition source_link :: "string \<Rightarrow> string \<Rightarrow> Link" where
  "source_link u p = \<lparr>url = u, path = p, is_wheel = False, filename = ''pkg-1.0.tar.gz''\<rparr>"

text \<open>
  pkg is registered as a constraint with one source location; the object 1 is a
  requirement pkg from another location.
\<close>

definition conflict_set :: RequirementSet where
  "conflict_set =
     graph_set (\<lambda>r. if r = 0 then (requirement ''pkg'')
                          \<lparr>link := Some (source_link ''file:///src/pkg'' ''/src/pkg''), constraint := True\<rparr>
                     else (requirement ''pkg'')\<lparr>link := Some (source_link ''file:///tmp/pkg'' ''/tmp/pkg'')\<rparr>)
       [(''pkg'', 0)]
       []"

text \<open>
  a is registered; the object 0 is a requirement given by a path, without a name.
\<close>

definition url_set :: RequirementSet where
  "url_set =
     graph_set (\<lambda>r. if r = 0 then (requirement [])
                          \<lparr>name := None, extras := ExtrasTuple [],
                           link := Some (source_link ''file:///tmp/pkg'' ''/tmp/pkg'')\<rparr>
                     else requirement ''a'')
       [(''a'', 1)]
       []"


text \<open>
  pkg is registered as a constraint bound to an archive on one host; the object 1 is
  a requirement pkg from another host, where the archive has the same path.
\<close>

definition mirror_set :: RequirementSet where
  "mirror_set =
     graph_set (\<lambda>r. if r = 0 then (requirement ''pkg'')
                          \<lparr>link := Some (source_link ''https://a.example/pkg-1.0.tar.gz''
                                           ''/pkg-1.0.tar.gz''),
                           constraint := True\<rparr>
                     else (requirement ''pkg'')
                          \<lparr>link := Some (source_link ''https://b.example/pkg-1.0.tar.gz''
                                           ''/pkg-1.0.tar.gz'')\<rparr>)
       [(''pkg'', 0)]
       []"

text \<open>
  Nothing is registered. The object 0 is the constraint pkg==1.0, the objects 1 and 2
  are the requirements pkg==1.0 and pkg==2.0, each with the empty set of extras.
\<close>

definition pin_set :: RequirementSet where
  "pin_set =
     graph_set (\<lambda>r. if r = 0 then (requirement ''pkg'')
                          \<lparr>specifier := ''==1.0'', constraint := True\<rparr>
                     else if r = 1 then (requirement ''pkg'')\<lparr>specifier := ''==1.0''\<rparr>
                     else (requirement ''pkg'')\<lparr>specifier := ''==2.0''\<rparr>)
       []
       []"

text \<open>
  The set after the constraint was admitted, then after the requirement pkg==1.0 was
  admitted as well, which promotes the constraint; and the set after pkg==1.0 was
  admitted with no constraint before it.
\<close>

definition pinned_set :: RequirementSet where
  "pinned_set = result_state (add_requirement any_wheel pin_set 0 None None)"

definition promoted_set :: RequirementSet where
  "promoted_set = result_state (add_requirement any_wheel pinned_set 1 None None)"

definition unpinned_set :: RequirementSet where
  "unpinned_set = result_state (add_requirement any_wheel pin_set 1 None None)"

section \<open>Termination of the scheduler\<close>

text \<open>
  The recursion is nested, so its termination rests on a fact about the function
  itself: a call never removes an object from \<^verbatim>\<open>ordered_reqs\<close>.
\<close>

lemma schedule_grows:
  "schedule_schedule_each_dom (Inl (self, req, s)) \<Longrightarrow> snd s \<subseteq> snd (schedule self req s)"
  "schedule_schedule_each_dom (Inr (self, ds, s)) \<Longrightarrow> snd s \<subseteq> snd (schedule_each self ds s)"
proof (induction self req s and self ds s rule: schedule_schedule_each.pinduct)
  case (1 self req order ordered_reqs)
  then show ?case
    by (auto simp: schedule.psimps split: prod.splits)
next
  case (2 self s)
  then show ?case by (simp add: schedule_each.psimps)
next
  case (3 self dep deps s)
  then show ?case by (auto simp: schedule_each.psimps)
qed

lemma deps_of_no_key: "r \<notin> fst ` set d \<Longrightarrow> deps_of d r = []"
  by (simp add: deps_of_def map_of_eq_None_iff[THEN iffD2])

text \<open>
  The measure: the number of keys of \<^verbatim>\<open>_dependencies\<close> not yet in \<^verbatim>\<open>ordered_reqs\<close>,
  then the position in the loop.
\<close>

termination schedule
proof (relation "inv_image (less_than <*lex*> less_than)
    (\<lambda>x. case x of
       Inl (self, req, s) \<Rightarrow> (card (fst ` set (dependencies self) - snd s), 1::nat)
     | Inr (self, ds, s) \<Rightarrow>
         (card (fst ` set (dependencies self) - snd s),
          if ds = [] then 0 else length ds + 1))", goal_cases)
  case 1
  then show ?case by auto
next
  case (2 self req order ordered_reqs)
  let ?K = "fst ` set (dependencies self)"
  show ?case
  proof (cases "req \<in> ?K")
    case True
    have "?K - insert req ordered_reqs \<subset> ?K - ordered_reqs"
      using True 2 by auto
    then have "card (?K - insert req ordered_reqs) < card (?K - ordered_reqs)"
      by (intro psubset_card_mono) auto
    then show ?thesis by simp
  next
    case False
    then show ?thesis by (simp add: deps_of_no_key)
  qed
next
  case (3 self dep deps s)
  then show ?case by simp
next
  case (4 self dep deps s)
  let ?K = "fst ` set (dependencies self)"
  have "snd s \<subseteq> snd (schedule self dep s)" using schedule_grows(1)[OF 4] .
  then have "card (?K - snd (schedule self dep s)) \<le> card (?K - snd s)"
    by (intro card_mono) auto
  then show ?case by auto
qed

section \<open>What the scheduler appends\<close>

lemma extends_refl: "extends self s s"
  by (auto simp: extends_def intro: exI[of _ "[]"])

lemma extends_trans:
  assumes "extends self s s1" and "extends self s1 s2"
  shows "extends self s s2"
proof -
  from assms(1) obtain n1 where n1: "s1 = (fst s @ n1, snd s \<union> set n1)" "set n1 \<inter> snd s = {}"
    "distinct n1" "\<forall>x \<in> set n1. \<not> skips self x"
    unfolding extends_def by blast
  from assms(2) obtain n2 where n2: "s2 = (fst s1 @ n2, snd s1 \<union> set n2)" "set n2 \<inter> snd s1 = {}"
    "distinct n2" "\<forall>x \<in> set n2. \<not> skips self x"
    unfolding extends_def by blast
  have "s2 = (fst s @ (n1 @ n2), snd s \<union> set (n1 @ n2))"
    using n1(1) n2(1) by auto
  moreover have "set (n1 @ n2) \<inter> snd s = {}" using n1 n2 by auto
  moreover have "distinct (n1 @ n2)" using n1 n2 by auto
  moreover have "\<forall>x \<in> set (n1 @ n2). \<not> skips self x" using n1 n2 by auto
  ultimately show ?thesis unfolding extends_def by blast
qed

lemma schedule_extends:
  "extends self s (schedule self req s)"
  "extends self s (schedule_each self ds s)"
proof (induction self req s and self ds s rule: schedule_schedule_each.induct)
  case (1 self req order ordered_reqs)
  show ?case
  proof (cases "satisfied_by (heap self req) \<noteq> None \<or> req \<in> ordered_reqs \<or> constraint (heap self req)")
    case True
    then show ?thesis by (auto simp: extends_refl)
  next
    case False
    then have "extends self (order, insert req ordered_reqs)
        (schedule_each self (deps_of (dependencies self) req) (order, insert req ordered_reqs))"
      using 1 by simp
    then obtain new where new:
      "schedule_each self (deps_of (dependencies self) req) (order, insert req ordered_reqs)
         = (order @ new, insert req ordered_reqs \<union> set new)"
      "set new \<inter> insert req ordered_reqs = {}" "distinct new" "\<forall>x \<in> set new. \<not> skips self x"
      unfolding extends_def by auto
    have "schedule self req (order, ordered_reqs) = (order @ (new @ [req]), ordered_reqs \<union> set (new @ [req]))"
      using False new(1) by simp
    moreover have "set (new @ [req]) \<inter> ordered_reqs = {}" using new(2) False by auto
    moreover have "distinct (new @ [req])" using new(2,3) by auto
    moreover have "\<forall>x \<in> set (new @ [req]). \<not> skips self x" using new(4) False by (auto simp: skips_def)
    ultimately show ?thesis unfolding extends_def by (metis fst_conv snd_conv)
  qed
next
  case (2 self s)
  then show ?case by (simp add: extends_refl)
next
  case (3 self dep deps s)
  then show ?case using extends_trans by simp
qed

section \<open>Dependencies come first\<close>

lemma topo_snoc:
  assumes "topo self xs"
    and "\<forall>c \<in> set (deps_of (dependencies self) r). \<not> skips self c \<longrightarrow> c \<in> set xs"
  shows "topo self (xs @ [r])"
  unfolding topo_def
proof (intro allI impI ballI)
  fix i c
  assume i: "i < length (xs @ [r])"
    and c: "c \<in> set (deps_of (dependencies self) ((xs @ [r]) ! i))" "\<not> skips self c"
  show "c \<in> set (take i (xs @ [r]))"
  proof (cases "i < length xs")
    case True
    then have "c \<in> set (take i xs)" using assms(1) c unfolding topo_def by (auto simp: nth_append)
    then show ?thesis using True by simp
  next
    case False
    then have "i = length xs" using i by simp
    then show ?thesis using assms(2) c by simp
  qed
qed

lemma extends_facts:
  assumes "extends self s s'"
  shows "set (fst s) \<subseteq> set (fst s')"
    and "set (fst s) \<subseteq> snd s \<Longrightarrow> set (fst s') \<subseteq> snd s'"
    and "set (fst s) \<subseteq> snd s \<Longrightarrow> snd s' - set (fst s') = snd s - set (fst s)"
  using assms unfolding extends_def by auto

lemma schedule_topo:
  "acyclic (edges self) \<Longrightarrow> set (fst s) \<subseteq> snd s \<Longrightarrow> topo self (fst s) \<Longrightarrow>
     (\<forall>k \<in> snd s - set (fst s). (k, req) \<in> (edges self)\<^sup>+) \<Longrightarrow>
   topo self (fst (schedule self req s)) \<and>
   (\<not> skips self req \<longrightarrow> req \<in> set (fst (schedule self req s)))"
  "acyclic (edges self) \<Longrightarrow> set (fst s) \<subseteq> snd s \<Longrightarrow> topo self (fst s) \<Longrightarrow>
     (\<forall>k \<in> snd s - set (fst s). \<forall>d \<in> set ds. (k, d) \<in> (edges self)\<^sup>+) \<Longrightarrow>
   topo self (fst (schedule_each self ds s)) \<and>
   (\<forall>d \<in> set ds. \<not> skips self d \<longrightarrow> d \<in> set (fst (schedule_each self ds s)))"
proof (induction self req s and self ds s rule: schedule_schedule_each.induct)
  case (1 self req order ordered_reqs)
  note acyc = \<open>acyclic (edges self)\<close>
  have sub: "set order \<subseteq> ordered_reqs" and tp: "topo self order"
    and stack: "\<forall>k \<in> ordered_reqs - set order. (k, req) \<in> (edges self)\<^sup>+"
    using 1(3,4,5) by simp_all
  show ?case
  proof (cases "skips self req")
    case True
    then show ?thesis using tp by (auto simp: skips_def)
  next
    case live: False
    show ?thesis
    proof (cases "req \<in> ordered_reqs")
      case True
      have "req \<in> set order"
      proof (rule ccontr)
        assume "req \<notin> set order"
        then have "(req, req) \<in> (edges self)\<^sup>+" using True stack by simp
        then show False using acyc by (simp add: acyclic_def)
      qed
      then show ?thesis using True tp by simp
    next
      case False
      let ?ds = "deps_of (dependencies self) req"
      let ?s0 = "(order, insert req ordered_reqs)"
      let ?s1 = "schedule_each self ?ds ?s0"
      have c1: "\<not> (satisfied_by (heap self req) \<noteq> None \<or> req \<in> ordered_reqs)"
        and c2: "\<not> constraint (heap self req)"
        using live False by (simp_all add: skips_def)
      have pre: "\<forall>k \<in> snd ?s0 - set (fst ?s0). \<forall>d \<in> set ?ds. (k, d) \<in> (edges self)\<^sup>+"
      proof (intro ballI)
        fix k d assume k: "k \<in> snd ?s0 - set (fst ?s0)" and d: "d \<in> set ?ds"
        have e: "(req, d) \<in> edges self" using d by (simp add: edges_def)
        show "(k, d) \<in> (edges self)\<^sup>+"
        proof (cases "k = req")
          case True then show ?thesis using e by auto
        next
          case False
          then have "(k, req) \<in> (edges self)\<^sup>+" using k stack by simp
          then show ?thesis using e by (rule trancl_into_trancl)
        qed
      qed
      have ih: "topo self (fst ?s1) \<and> (\<forall>d \<in> set ?ds. \<not> skips self d \<longrightarrow> d \<in> set (fst ?s1))"
        using 1(1)[OF c1 c2 acyc _ _ pre] sub tp by auto
      have res: "schedule self req (order, ordered_reqs) = (fst ?s1 @ [req], snd ?s1)"
        using c1 c2 by (simp add: case_prod_beta)
      have "topo self (fst ?s1 @ [req])" using ih by (intro topo_snoc) auto
      then show ?thesis using res by simp
    qed
  qed
next
  case (2 self s)
  then show ?case by simp
next
  case (3 self dep deps s)
  note acyc = \<open>acyclic (edges self)\<close>
  let ?s1 = "schedule self dep s"
  let ?s2 = "schedule_each self deps ?s1"
  have e1: "extends self s ?s1" by (rule schedule_extends)
  have e2: "extends self ?s1 ?s2" by (rule schedule_extends)
  have p1: "topo self (fst ?s1) \<and> (\<not> skips self dep \<longrightarrow> dep \<in> set (fst ?s1))"
    using 3(1)[OF acyc 3(4) 3(5)] 3(6) by simp
  have sub1: "set (fst ?s1) \<subseteq> snd ?s1" using extends_facts(2)[OF e1 3(4)] .
  have stack1: "snd ?s1 - set (fst ?s1) = snd s - set (fst s)" using extends_facts(3)[OF e1 3(4)] .
  have p2: "topo self (fst ?s2) \<and> (\<forall>d \<in> set deps. \<not> skips self d \<longrightarrow> d \<in> set (fst ?s2))"
    using 3(2)[OF acyc sub1] p1 stack1 3(6) by simp
  have "set (fst ?s1) \<subseteq> set (fst ?s2)" using extends_facts(1)[OF e2] .
  then show ?case using p1 p2 by auto
qed

lemma takeWhile_neq_nth:
  assumes "distinct xs" and "j < length xs"
  shows "takeWhile (\<lambda>x. x \<noteq> xs ! j) xs = take j xs"
proof (rule takeWhile_eq_take_P_nth)
  fix i assume "i < j" "i < length xs"
  then show "xs ! i \<noteq> xs ! j" using assms by (simp add: nth_eq_iff_index_eq)
next
  show "\<not> xs ! j \<noteq> xs ! j" by simp
qed

lemma precedes_iff:
  assumes "distinct xs"
  shows "precedes xs c p \<longleftrightarrow> (\<exists>i j. i < j \<and> j < length xs \<and> xs ! i = c \<and> xs ! j = p)"
proof
  assume "precedes xs c p"
  then have p: "p \<in> set xs" and c: "c \<in> set (takeWhile (\<lambda>x. x \<noteq> p) xs)"
    by (simp_all add: precedes_def)
  from p obtain j where j: "j < length xs" "xs ! j = p" by (auto simp: in_set_conv_nth)
  have "takeWhile (\<lambda>x. x \<noteq> p) xs = take j xs"
    using takeWhile_neq_nth[OF assms j(1)] j(2) by simp
  then have "c \<in> set (take j xs)" using c by simp
  then obtain i where "i < j" "xs ! i = c" using j(1) by (auto simp: in_set_conv_nth)
  then show "\<exists>i j. i < j \<and> j < length xs \<and> xs ! i = c \<and> xs ! j = p" using j by blast
next
  assume "\<exists>i j. i < j \<and> j < length xs \<and> xs ! i = c \<and> xs ! j = p"
  then obtain i j where ij: "i < j" "j < length xs" "xs ! i = c" "xs ! j = p" by blast
  have "takeWhile (\<lambda>x. x \<noteq> p) xs = take j xs"
    using takeWhile_neq_nth[OF assms ij(2)] ij(4) by simp
  moreover have "c \<in> set (take j xs)"
    using ij by (auto simp: in_set_conv_nth intro!: exI[of _ i])
  moreover have "p \<in> set xs" using ij by auto
  ultimately show "precedes xs c p" by (simp add: precedes_def)
qed

lemma precedes_trans:
  assumes "distinct xs" and "precedes xs c b" and "precedes xs b p"
  shows "precedes xs c p"
proof -
  from assms(2) obtain i j where ij: "i < j" "j < length xs" "xs ! i = c" "xs ! j = b"
    using precedes_iff[OF assms(1)] by blast
  from assms(3) obtain j' k where jk: "j' < k" "k < length xs" "xs ! j' = b" "xs ! k = p"
    using precedes_iff[OF assms(1)] by blast
  have "j' < length xs" using jk by simp
  moreover have "xs ! j = xs ! j'" using ij jk by simp
  ultimately have "j = j'" using ij(2) assms(1) by (simp add: nth_eq_iff_index_eq)
  then have "i < k" using ij jk by simp
  then show ?thesis using precedes_iff[OF assms(1)] ij jk by blast
qed

lemma topo_precedes:
  assumes "distinct xs" and "topo self xs" and "p \<in> set xs" and "(p, c) \<in> live_edges self"
  shows "precedes xs c p"
proof -
  from assms(3) obtain j where j: "j < length xs" "xs ! j = p" by (auto simp: in_set_conv_nth)
  have "c \<in> set (take j xs)"
    using assms(2,4) j unfolding topo_def live_edges_def by auto
  then obtain i where "i < j" "xs ! i = c" using j(1) by (auto simp: in_set_conv_nth)
  then show ?thesis using precedes_iff[OF assms(1)] j by blast
qed

lemma topo_precedes_trancl:
  assumes "distinct xs" and "topo self xs" and "p \<in> set xs" and "(p, c) \<in> (live_edges self)\<^sup>+"
  shows "precedes xs c p"
  using assms(4)
proof (induction rule: trancl_induct)
  case (base y)
  then show ?case using topo_precedes[OF assms(1,2,3)] by simp
next
  case (step y z)
  have "y \<in> set xs" using step.IH precedes_iff[OF assms(1)] by auto
  then have "precedes xs z y" using topo_precedes[OF assms(1,2) _ step.hyps(2)] by simp
  then show ?case using precedes_trans[OF assms(1) _ step.IH] by simp
qed

lemma lookup_all_Some: "set ks \<subseteq> dom d \<Longrightarrow> \<exists>vs. lookup_all d ks = Some vs"
  by (induction ks) auto

lemma to_install_Inr:
  "to_install self = Inr order \<Longrightarrow>
     \<exists>vs. values_of (requirements self) = Some vs \<and> order = fst (schedule_each self vs ([], {}))"
  by (auto simp: to_install_def split: option.splits)

lemma to_install_ok:
  "registry_ok (requirements self) \<Longrightarrow> \<exists>order. to_install self = Inr order"
  using lookup_all_Some[of "r_keys (requirements self)" "r_dict (requirements self)"]
  by (auto simp: to_install_def registry_ok_def values_of_def)

lemma to_install_extends:
  assumes "to_install self = Inr order"
  shows "distinct order" and "\<forall>r \<in> set order. \<not> skips self r"
proof -
  from to_install_Inr[OF assms] obtain vs where
    vs: "order = fst (schedule_each self vs ([], {}))" by blast
  have "extends self ([], {}) (schedule_each self vs ([], {}))" by (rule schedule_extends)
  then show "distinct order" and "\<forall>r \<in> set order. \<not> skips self r"
    using vs unfolding extends_def by auto
qed

lemma to_install_topo:
  assumes "acyclic (edges self)" and "to_install self = Inr order"
  shows "topo self order"
proof -
  from to_install_Inr[OF assms(2)] obtain vs where
    vs: "order = fst (schedule_each self vs ([], {}))" by blast
  show ?thesis using schedule_topo(2)[OF assms(1), of "([], {})" vs] vs
    by (simp add: topo_def)
qed

lemma acyclic_increasing:
  fixes r :: "(nat \<times> nat) set"
  assumes "\<And>p c. (p, c) \<in> r \<Longrightarrow> p < c"
  shows "acyclic r"
proof -
  have "x < y" if "(x, y) \<in> r\<^sup>+" for x y
    using that by (induction rule: trancl_induct) (auto dest: assms)
  then show ?thesis by (force simp: acyclic_def)
qed

lemmas example_defs =
  graph_set_def RequirementSet_init_def Requirements_init_def requirement_def
  to_install_def values_of_def deps_of_def registry_ok_def edges_def live_edges_def skips_def

section \<open>Claims about the scheduler\<close>

text \<open>
  C6. For every dependency graph, cycles included, the computation of the order
  terminates and no requirement stands in the order twice, however many parents
  depend on it. \<open>to_install\<close> is a total function, by the termination proof of
  \<open>schedule\<close>; with the invariant of the registry it returns an order, and the order is
  distinct.
\<close>

theorem to_install_distinct:
  assumes "registry_ok (requirements self)"
  shows "\<exists>order. to_install self = Inr order \<and> distinct order"
  using to_install_ok[OF assms] to_install_extends(1) by blast

text \<open>
  On the cycle a \<open>\<rightarrow>\<close> b \<open>\<rightarrow>\<close> c \<open>\<rightarrow>\<close> a, with c a dependency of both a and b, the
  order is c, b, a.
\<close>

theorem to_install_distinct_witness:
  "registry_ok (requirements cycle_set) \<and> (0, 0) \<in> (edges cycle_set)\<^sup>+ \<and>
   to_install cycle_set = Inr [2, 1, 0] \<and>
   (\<exists>order. to_install cycle_set = Inr order \<and> distinct order)"
proof -
  have ok: "registry_ok (requirements cycle_set)"
    by (simp add: cycle_set_def example_defs)
  have "(0, 1) \<in> edges cycle_set" "(1, 2) \<in> edges cycle_set" "(2, 0) \<in> edges cycle_set"
    by (simp_all add: cycle_set_def example_defs)
  then have cyc: "(0, 0) \<in> (edges cycle_set)\<^sup>+" by (meson trancl.simps)
  have ord: "to_install cycle_set = Inr [2, 1, 0]"
    by (simp add: cycle_set_def example_defs)
  show ?thesis using to_install_distinct[OF ok] ok cyc ord by simp
qed

text \<open>
  C7. A requirement whose \<^verbatim>\<open>satisfied_by\<close> is set, or whose \<^verbatim>\<open>constraint\<close> flag is still
  true, is not in the computed order, and computing the order raises no error, also
  when the requirement is a dependency of one that is scheduled.
\<close>

theorem to_install_omits_skipped:
  assumes "registry_ok (requirements self)"
  shows "\<exists>order. to_install self = Inr order \<and>
           (\<forall>r. satisfied_by (heap self r) \<noteq> None \<or> constraint (heap self r) \<longrightarrow>
                r \<notin> set order)"
  using to_install_ok[OF assms] to_install_extends(2) unfolding skips_def by blast

text \<open>
  p is scheduled; its dependencies s (installed) and k (a constraint) are left out.
\<close>

theorem to_install_omits_skipped_witness:
  "registry_ok (requirements skip_set) \<and>
   satisfied_by (heap skip_set 1) = Some ''s 1.0'' \<and> constraint (heap skip_set 2) \<and>
   (0, 1) \<in> edges skip_set \<and> (0, 2) \<in> edges skip_set \<and>
   to_install skip_set = Inr [0] \<and>
   (\<exists>order. to_install skip_set = Inr order \<and>
      (\<forall>r. satisfied_by (heap skip_set r) \<noteq> None \<or> constraint (heap skip_set r) \<longrightarrow>
           r \<notin> set order))"
proof -
  have ok: "registry_ok (requirements skip_set)"
    by (simp add: skip_set_def example_defs)
  have facts: "satisfied_by (heap skip_set 1) = Some ''s 1.0''" "constraint (heap skip_set 2)"
    "(0, 1) \<in> edges skip_set" "(0, 2) \<in> edges skip_set"
    by (simp_all add: skip_set_def example_defs)
  have ord: "to_install skip_set = Inr [0]"
    by (simp add: skip_set_def example_defs)
  show ?thesis using to_install_omits_skipped[OF ok] ok facts ord by simp
qed

text \<open>
  C3, as the code has it. In a dependency graph without cycles, a requirement \<open>c\<close>
  that a member \<open>p\<close> of the order reaches along recorded edges through requirements that
  are not skipped (\<open>c\<close> and every requirement between the two has no \<^verbatim>\<open>satisfied_by\<close>
  and is not a constraint) is in the order, before \<open>p\<close>.
\<close>

theorem to_install_dependencies_first:
  assumes "acyclic (edges self)" and "to_install self = Inr order"
    and "p \<in> set order" and "(p, c) \<in> (live_edges self)\<^sup>+"
  shows "precedes order c p"
  using topo_precedes_trancl[OF to_install_extends(1)[OF assms(2)]
      to_install_topo[OF assms(1,2)] assms(3,4)] .

text \<open>
  In the graph a \<open>\<rightarrow>\<close> b, c; b, c \<open>\<rightarrow>\<close> d; d \<open>\<rightarrow>\<close> e the order is e, d, b, c, a, and e,
  which a reaches through b and d, stands before a.
\<close>

theorem to_install_dependencies_first_witness:
  "acyclic (edges dag_set) \<and> to_install dag_set = Inr [4, 3, 1, 2, 0] \<and>
   0 \<in> set [4, 3, 1, 2, 0 :: ref] \<and> (0, 4) \<in> (live_edges dag_set)\<^sup>+ \<and>
   precedes [4, 3, 1, 2, 0] 4 0"
proof -
  have acyc: "acyclic (edges dag_set)"
    by (rule acyclic_increasing) (auto simp: dag_set_def example_defs split: if_splits)
  have ord: "to_install dag_set = Inr [4, 3, 1, 2, 0]"
    by (simp add: dag_set_def example_defs)
  have mem: "0 \<in> set [4, 3, 1, 2, 0 :: ref]" by simp
  have "(0, 1) \<in> live_edges dag_set" "(1, 3) \<in> live_edges dag_set"
    "(3, 4) \<in> live_edges dag_set"
    by (simp_all add: dag_set_def example_defs)
  then have path: "(0, 4) \<in> (live_edges dag_set)\<^sup>+" by (meson trancl.simps)
  show ?thesis using to_install_dependencies_first[OF acyc ord mem path] acyc ord path by simp
qed

text \<open>
  The claim as stated fails where the path runs through a skipped requirement: p
  needs s, which is installed, and s needs c. The graph has no cycle, p and c are both
  in the order and c is reachable from p, yet p comes first.
\<close>

theorem to_install_dependencies_first_counterexample:
  "acyclic (edges chain_set) \<and> to_install chain_set = Inr [0, 2] \<and>
   (0, 2) \<in> (edges chain_set)\<^sup>+ \<and> \<not> precedes [0, 2] 2 0"
proof -
  have acyc: "acyclic (edges chain_set)"
    by (rule acyclic_increasing) (auto simp: chain_set_def example_defs split: if_splits)
  have ord: "to_install chain_set = Inr [0, 2]"
    by (simp add: chain_set_def example_defs)
  have "(0, 1) \<in> edges chain_set" "(1, 2) \<in> edges chain_set"
    by (simp_all add: chain_set_def example_defs)
  then have path: "(0, 2) \<in> (edges chain_set)\<^sup>+" by (meson trancl.simps)
  have "\<not> precedes [0, 2] 2 0" by (simp add: precedes_def)
  then show ?thesis using acyc ord path by simp
qed

section \<open>The loop of \<^verbatim>\<open>install\<close>\<close>

lemma install_one_subject:
  "ev \<in> set (snd (install_one w self x)) \<Longrightarrow> subject ev = x"
  by (auto simp: install_one_def Let_def split: if_splits)

lemma install_loop_subject:
  "ev \<in> set (snd (install_loop w self xs)) \<Longrightarrow> subject ev \<in> set xs"
proof (induction xs arbitrary: ev)
  case Nil
  then show ?case by simp
next
  case (Cons x xs)
  then show ?case
    by (auto split: prod.splits option.splits dest: install_one_subject
        simp: install_one_subject[of _ w self x])
qed

lemma install_loop_append:
  "fst (install_loop w self pre) = None \<Longrightarrow>
   install_loop w self (pre @ rest) =
     (fst (install_loop w self rest), snd (install_loop w self pre) @ snd (install_loop w self rest))"
proof (induction pre)
  case Nil
  then show ?case by simp
next
  case (Cons x pre)
  then show ?case by (auto split: prod.splits option.splits)
qed

lemma install_loop_stops:
  "fst (install_one w self r) = Some e \<Longrightarrow>
   install_loop w self (r # post) = install_one w self r"
  by (cases "install_one w self r") auto

lemma install_one_rollback:
  assumes "conflicts_with (heap self r) \<noteq> None" and "\<not> uninstall_raises w r"
    and "install_raises w r" and "\<not> install_succeeded w r"
  shows "install_one w self r =
     (Some (if rollback_raises w r then RollbackFailed r else InstallFailed r),
      [Uninstall r, Install r, Rollback r])"
  using assms by (simp add: install_one_def)

lemma install_one_remove:
  assumes "Install r \<in> set (snd (install_one w self x))"
    and "\<not> install_raises w r" and "\<not> commit_raises w r"
  shows "\<exists>bef mid aft. snd (install_one w self x) =
            bef @ Install r # mid @ RemoveTemporarySource r # aft \<and>
            (mid = [] \<or> mid = [Commit r])"
proof -
  have x: "x = r" using install_one_subject[OF assms(1)] by simp
  let ?c = "conflicts_with (heap self r) \<noteq> None"
  let ?bef = "if ?c then [Uninstall r] else []"
  let ?mid = "if ?c \<and> install_succeeded w r then [Commit r] else []"
  have nr: "\<not> (?c \<and> uninstall_raises w r)"
    using assms(1) x by (auto simp: install_one_def)
  have "snd (install_one w self x) = ?bef @ Install r # ?mid @ RemoveTemporarySource r # []"
    using nr assms(2,3) x by (auto simp: install_one_def Let_def)
  moreover have "?mid = [] \<or> ?mid = [Commit r]" by simp
  ultimately show ?thesis by blast
qed

lemma install_loop_remove:
  assumes "Install r \<in> set (snd (install_loop w self xs))"
    and "\<not> install_raises w r" and "\<not> commit_raises w r"
  shows "\<exists>bef mid aft. snd (install_loop w self xs) =
            bef @ Install r # mid @ RemoveTemporarySource r # aft \<and>
            (mid = [] \<or> mid = [Commit r])"
  using assms(1)
proof (induction xs)
  case Nil
  then show ?case by simp
next
  case (Cons x xs)
  obtain res tr where one: "install_one w self x = (res, tr)" by fastforce
  obtain res' tr' where rest: "install_loop w self xs = (res', tr')" by fastforce
  show ?case
  proof (cases "Install r \<in> set tr")
    case True
    then obtain bef mid aft where
      t: "tr = bef @ Install r # mid @ RemoveTemporarySource r # aft" "mid = [] \<or> mid = [Commit r]"
      using install_one_remove[of r w self x] one assms(2,3) by auto
    show ?thesis
    proof (cases res)
      case None
      then have "snd (install_loop w self (x # xs)) =
          bef @ Install r # mid @ RemoveTemporarySource r # (aft @ tr')"
        using one rest t(1) by simp
      then show ?thesis using t(2) by blast
    next
      case (Some e)
      then have "snd (install_loop w self (x # xs)) =
          bef @ Install r # mid @ RemoveTemporarySource r # aft"
        using one t(1) by simp
      then show ?thesis using t(2) by blast
    qed
  next
    case False
    then have res: "res = None" and "Install r \<in> set tr'"
      using Cons.prems one rest by (auto split: option.splits)
    then obtain bef mid aft where
      t: "tr' = bef @ Install r # mid @ RemoveTemporarySource r # aft" "mid = [] \<or> mid = [Commit r]"
      using Cons.IH rest by auto
    have "snd (install_loop w self (x # xs)) =
        (tr @ bef) @ Install r # mid @ RemoveTemporarySource r # aft"
      using one rest res t(1) by simp
    then show ?thesis using t(2) by blast
  qed
qed

lemma install_one_no_remove:
  "install_raises w r \<Longrightarrow> RemoveTemporarySource r \<notin> set (snd (install_one w self x))"
  by (auto simp: install_one_def Let_def split: if_splits)

lemma install_loop_no_remove:
  "install_raises w r \<Longrightarrow> RemoveTemporarySource r \<notin> set (snd (install_loop w self xs))"
proof (induction xs)
  case Nil
  then show ?case by simp
next
  case (Cons x xs)
  obtain res tr where one: "install_one w self x = (res, tr)" by fastforce
  have "RemoveTemporarySource r \<notin> set tr"
    using install_one_no_remove[OF Cons.prems, of self x] one by simp
  then show ?case using Cons one by (auto split: prod.splits option.splits)
qed

lemma install_trace:
  "fst (snd (install w self)) =
     (case to_install self of Inl e \<Rightarrow> [] | Inr order \<Rightarrow> snd (install_loop w self order))"
  by (auto simp: install_def split: sum.splits prod.splits option.splits)

lemmas install_defs = install_def install_one_def working_world_def failing_world_def

section \<open>Claims about installation\<close>

text \<open>
  C5. Let \<open>r\<close> be a requirement of the computed order whose \<^verbatim>\<open>conflicts_with\<close> is set, so
  that the installed distribution was uninstalled first, and whose \<^verbatim>\<open>install\<close> raises
  without reporting success, the requirements before it having gone through. Then
  \<^verbatim>\<open>rollback\<close> is called on the uninstalled path set right after the failed \<^verbatim>\<open>install\<close>,
  \<^verbatim>\<open>install\<close> of the set ends with the exception (that of \<^verbatim>\<open>rollback\<close>, should
  \<^verbatim>\<open>rollback\<close> raise itself), and no call is made on a requirement that follows \<open>r\<close> in
  the order.
\<close>

theorem install_failure_rolls_back:
  assumes "to_install self = Inr (pre @ r # post)"
    and "fst (install_loop w self pre) = None"
    and "conflicts_with (heap self r) \<noteq> None"
    and "\<not> uninstall_raises w r"
    and "install_raises w r"
    and "\<not> install_succeeded w r"
  shows "install w self =
           (Some (if rollback_raises w r then RollbackFailed r else InstallFailed r),
            snd (install_loop w self pre) @ [Uninstall r, Install r, Rollback r], self) \<and>
         (\<forall>ev \<in> set (fst (snd (install w self))). subject ev \<notin> set post)"
proof -
  let ?e = "if rollback_raises w r then RollbackFailed r else InstallFailed r"
  let ?tr = "snd (install_loop w self pre) @ [Uninstall r, Install r, Rollback r]"
  have one: "install_one w self r = (Some ?e, [Uninstall r, Install r, Rollback r])"
    using install_one_rollback[OF assms(3-6)] .
  then have "install_loop w self (r # post) = (Some ?e, [Uninstall r, Install r, Rollback r])"
    using install_loop_stops[of w self r ?e post] by simp
  then have loop: "install_loop w self (pre @ r # post) = (Some ?e, ?tr)"
    using install_loop_append[OF assms(2), of "r # post"] by simp
  then have res: "install w self = (Some ?e, ?tr, self)"
    using assms(1) by (simp add: install_def)
  have dist: "distinct (pre @ r # post)" using to_install_extends(1)[OF assms(1)] .
  have "subject ev \<notin> set post" if "ev \<in> set ?tr" for ev
  proof -
    from that have "subject ev \<in> set pre \<or> subject ev = r"
      using install_loop_subject[of ev w self pre] by auto
    then show ?thesis using dist by auto
  qed
  then show ?thesis using res by simp
qed

text \<open>
  x is installed; a, which replaces the installed a 0.9, fails; z is never touched.
\<close>

theorem install_failure_rolls_back_witness:
  "to_install install_set = Inr ([0] @ 1 # [2]) \<and>
   fst (install_loop (failing_world 1) install_set [0]) = None \<and>
   conflicts_with (heap install_set 1) \<noteq> None \<and>
   \<not> uninstall_raises (failing_world 1) 1 \<and>
   install_raises (failing_world 1) 1 \<and>
   \<not> install_succeeded (failing_world 1) 1 \<and>
   install (failing_world 1) install_set =
     (Some (InstallFailed 1),
      [Install 0, RemoveTemporarySource 0, Uninstall 1, Install 1, Rollback 1], install_set)"
proof -
  have ord: "to_install install_set = Inr ([0] @ 1 # [2])"
    by (simp add: install_set_def example_defs)
  have pre: "fst (install_loop (failing_world 1) install_set [0]) = None"
    by (simp add: install_set_def example_defs install_defs)
  have tr: "snd (install_loop (failing_world 1) install_set [0]) =
      [Install 0, RemoveTemporarySource 0]"
    by (simp add: install_set_def example_defs install_defs)
  have c: "conflicts_with (heap install_set 1) \<noteq> None"
    by (simp add: install_set_def example_defs)
  have w: "\<not> uninstall_raises (failing_world 1) 1" "install_raises (failing_world 1) 1"
    "\<not> install_succeeded (failing_world 1) 1" "\<not> rollback_raises (failing_world 1) 1"
    by (simp_all add: install_defs)
  show ?thesis
    using install_failure_rolls_back[OF ord pre c w(1,2,3)] ord pre c w tr by simp
qed

text \<open>
  C8, as the code has it. When the \<^verbatim>\<open>install\<close> of a requirement returns, its temporary
  source is removed right after: only the \<^verbatim>\<open>commit\<close> of its own uninstall, if there
  is one and it does not raise, comes between, and no call on another requirement.
  When the \<^verbatim>\<open>install\<close> of a requirement raises, \<^verbatim>\<open>remove_temporary_source\<close> is not called
  on it: the exception leaves the loop before line 315.
\<close>

theorem install_removes_source_after_success:
  assumes "install w self = (res, tr, self')"
  shows "(Install r \<in> set tr \<and> \<not> install_raises w r \<and> \<not> commit_raises w r \<longrightarrow>
            (\<exists>bef mid aft. tr = bef @ Install r # mid @ RemoveTemporarySource r # aft \<and>
               (mid = [] \<or> mid = [Commit r]))) \<and>
         (install_raises w r \<longrightarrow> RemoveTemporarySource r \<notin> set tr)"
proof -
  have tr: "tr = (case to_install self of Inl e \<Rightarrow> [] | Inr order \<Rightarrow> snd (install_loop w self order))"
    using install_trace[of w self] assms by simp
  show ?thesis
  proof (cases "to_install self")
    case (Inl e)
    then show ?thesis using tr by simp
  next
    case (Inr order)
    then have "tr = snd (install_loop w self order)" using tr by simp
    then show ?thesis
      using install_loop_remove[of r w self order] install_loop_no_remove[of w r self order]
      by blast
  qed
qed

text \<open>
  With every call returning, the source of a is removed after the commit of its
  uninstall; when the \<^verbatim>\<open>install\<close> of a raises, it is not removed.
\<close>

theorem install_removes_source_after_success_witness:
  "install working_world install_set =
     (None,
      [Install 0, RemoveTemporarySource 0, Uninstall 1, Install 1, Commit 1,
       RemoveTemporarySource 1, Install 2, RemoveTemporarySource 2],
      install_set\<lparr>successfully_installed := [0, 1, 2]\<rparr>) \<and>
   \<not> install_raises working_world 1 \<and> \<not> commit_raises working_world 1 \<and>
   (\<exists>bef mid aft.
      [Install 0, RemoveTemporarySource 0, Uninstall 1, Install 1, Commit 1,
       RemoveTemporarySource 1, Install 2, RemoveTemporarySource 2] =
        bef @ Install 1 # mid @ RemoveTemporarySource 1 # aft \<and> (mid = [] \<or> mid = [Commit 1])) \<and>
   install (failing_world 1) install_set =
     (Some (InstallFailed 1),
      [Install 0, RemoveTemporarySource 0, Uninstall 1, Install 1, Rollback 1], install_set) \<and>
   install_raises (failing_world 1) 1 \<and>
   RemoveTemporarySource 1 \<notin>
     set [Install 0, RemoveTemporarySource 0, Uninstall 1, Install 1, Rollback 1]"
proof -
  have ord: "to_install install_set = Inr [0, 1, 2]"
    by (simp add: install_set_def example_defs)
  have good: "install working_world install_set =
     (None,
      [Install 0, RemoveTemporarySource 0, Uninstall 1, Install 1, Commit 1,
       RemoveTemporarySource 1, Install 2, RemoveTemporarySource 2],
      install_set\<lparr>successfully_installed := [0, 1, 2]\<rparr>)"
    unfolding install_def ord by (simp add: install_set_def example_defs install_defs)
  have bad: "install (failing_world 1) install_set =
     (Some (InstallFailed 1),
      [Install 0, RemoveTemporarySource 0, Uninstall 1, Install 1, Rollback 1], install_set)"
    unfolding install_def ord by (simp add: install_set_def example_defs install_defs)
  have w: "\<not> install_raises working_world 1" "\<not> commit_raises working_world 1"
    "install_raises (failing_world 1) 1"
    by (simp_all add: install_defs)
  show ?thesis
    using install_removes_source_after_success[OF good, of 1]
      install_removes_source_after_success[OF bad, of 1] good bad w
    by simp
qed

text \<open>
  The claim as stated fails on a failed attempt: the \<^verbatim>\<open>install\<close> of x raises and the
  run ends with no \<^verbatim>\<open>remove_temporary_source\<close> on x.
\<close>

theorem install_removes_source_counterexample:
  "install (failing_world 0) install_set = (Some (InstallFailed 0), [Install 0], install_set) \<and>
   Install 0 \<in> set [Install 0] \<and> RemoveTemporarySource 0 \<notin> set [Install 0]"
proof -
  have ord: "to_install install_set = Inr [0, 1, 2]"
    by (simp add: install_set_def example_defs)
  show ?thesis
    unfolding install_def ord by (simp add: install_set_def example_defs install_defs)
qed

section \<open>What \<^verbatim>\<open>add_requirement\<close> leaves alone\<close>

lemma get_requirement_loop_heap:
  "get_requirement_loop (self\<lparr>heap := h\<rparr>) ns = get_requirement_loop self ns"
  by (induction ns) (auto split: option.splits)

lemma get_requirement_heap [simp]:
  "get_requirement (self\<lparr>heap := h\<rparr>) n = get_requirement self n"
  by (simp only: get_requirement_def get_requirement_loop_heap)

lemma get_requirement_propagate [simp]:
  "get_requirement (propagate self r p) n = get_requirement self n"
  by (simp add: propagate_def)

lemma propagate_frame [simp]:
  "requirements (propagate self r p) = requirements self"
  "requirement_aliases (propagate self r p) = requirement_aliases self"
  "unnamed_requirements (propagate self r p) = unnamed_requirements self"
  "reqs_to_cleanup (propagate self r p) = reqs_to_cleanup self"
  "dependencies (propagate self r p) = dependencies self"
  "successfully_installed (propagate self r p) = successfully_installed self"
  by (simp_all add: propagate_def)

lemma propagate_heap_other: "x \<noteq> r \<Longrightarrow> heap (propagate self r p) x = heap self x"
  by (simp add: propagate_def)

lemma propagate_heap_fields [simp]:
  "name (heap (propagate self r p) x) = name (heap self x)"
  "specifier (heap (propagate self r p) x) = specifier (heap self x)"
  "extras (heap (propagate self r p) x) = extras (heap self x)"
  "match_markers (heap (propagate self r p) x) = match_markers (heap self x)"
  "link (heap (propagate self r p) x) = link (heap self x)"
  "constraint (heap (propagate self r p) x) = constraint (heap self x)"
  "satisfied_by (heap (propagate self r p) x) = satisfied_by (heap self x)"
  "conflicts_with (heap (propagate self r p) x) = conflicts_with (heap self x)"
  by (simp_all add: propagate_def)

lemma record_edge_ok:
  assumes "\<And>p. parent = Some p \<Longrightarrow> p \<noteq> [] \<Longrightarrow> get_requirement self p \<noteq> None"
  shows "\<exists>self'. record_edge self parent x result = Inr (result, self') \<and>
           heap self' = heap self \<and> requirements self' = requirements self \<and>
           requirement_aliases self' = requirement_aliases self \<and>
           unnamed_requirements self' = unnamed_requirements self \<and>
           reqs_to_cleanup self' = reqs_to_cleanup self \<and>
           dependencies self' =
             (case parent of
                None \<Rightarrow> dependencies self
              | Some p \<Rightarrow>
                  if p = [] then dependencies self
                  else (case get_requirement self p of
                          None \<Rightarrow> dependencies self
                        | Some pr \<Rightarrow> deps_append (dependencies self) pr x))"
  using assms by (auto simp: record_edge_def split: option.splits)

lemma finite_elements: "finite (elements e)"
  by (cases e) simp_all

lemma merged_extras_props:
  "\<exists>xs. merged_extras a b = ExtrasTuple xs \<and> sorted xs \<and> distinct xs \<and>
        set xs = elements a \<union> elements b"
  by (simp add: merged_extras_def finite_elements)


lemma record_edge_not_double:
  "record_edge s parent x res \<noteq> Inl (DoubleRequirement, s')"
  by (simp add: record_edge_def split: option.splits)

lemma add_named_not_double:
  "add_named s r n (Some p) \<noteq> Inl (DoubleRequirement, s')"
  by (simp add: add_named_def Let_def record_edge_not_double split: option.splits)

lemma wheel_check_not_double: "wheel_check Wheel l \<noteq> Some DoubleRequirement"
  by (simp add: wheel_check_def split: option.splits)

lemma add_requirement_not_double:
  "add_requirement Wheel s r (Some p) e \<noteq> Inl (DoubleRequirement, s')"
proof (cases "wheel_check Wheel (link (heap s r))")
  case None
  then show ?thesis
    by (simp add: add_requirement_def Let_def add_named_not_double split: option.splits)
next
  case (Some err)
  then have "err \<noteq> DoubleRequirement" using wheel_check_not_double[of Wheel] by metis
  then show ?thesis using Some by (simp add: add_requirement_def)
qed

lemma schedule_same:
  "(\<And>x. satisfied_by (heap self' x) = satisfied_by (heap self x)) \<Longrightarrow>
   (\<And>x. constraint (heap self' x) = constraint (heap self x)) \<Longrightarrow>
   dependencies self' = dependencies self \<Longrightarrow>
   schedule self' req s = schedule self req s"
  "(\<And>x. satisfied_by (heap self' x) = satisfied_by (heap self x)) \<Longrightarrow>
   (\<And>x. constraint (heap self' x) = constraint (heap self x)) \<Longrightarrow>
   dependencies self' = dependencies self \<Longrightarrow>
   schedule_each self' ds s = schedule_each self ds s"
proof (induction self req s and self ds s rule: schedule_schedule_each.induct)
  case (1 self req order ordered_reqs)
  show ?case
  proof (cases "satisfied_by (heap self req) \<noteq> None \<or> req \<in> ordered_reqs \<or> constraint (heap self req)")
    case True
    then show ?thesis using 1(2,3) by auto
  next
    case False
    then have "schedule_each self' (deps_of (dependencies self) req) (order, insert req ordered_reqs) =
        schedule_each self (deps_of (dependencies self) req) (order, insert req ordered_reqs)"
      using 1 by simp
    then show ?thesis using False 1(2,3,4) by simp
  qed
next
  case (2 self s)
  then show ?case by simp
next
  case (3 self dep deps s)
  then show ?case by simp
qed

lemma scheduled_from:
  "x \<in> set (fst (schedule self req s)) \<Longrightarrow>
     x \<in> set (fst s) \<or> x = req \<or> (\<exists>p. x \<in> set (deps_of (dependencies self) p))"
  "x \<in> set (fst (schedule_each self ds s)) \<Longrightarrow>
     x \<in> set (fst s) \<or> x \<in> set ds \<or> (\<exists>p. x \<in> set (deps_of (dependencies self) p))"
proof (induction self req s and self ds s rule: schedule_schedule_each.induct)
  case (1 self req order ordered_reqs)
  show ?case
  proof (cases "satisfied_by (heap self req) \<noteq> None \<or> req \<in> ordered_reqs \<or> constraint (heap self req)")
    case True
    then have "schedule self req (order, ordered_reqs) = (order, ordered_reqs)" by auto
    then show ?thesis using 1(2) by simp
  next
    case False
    let ?s1 = "schedule_each self (deps_of (dependencies self) req) (order, insert req ordered_reqs)"
    have "schedule self req (order, ordered_reqs) = (fst ?s1 @ [req], snd ?s1)"
      using False by (simp add: case_prod_beta)
    then have "x \<in> set (fst ?s1) \<or> x = req" using 1(2) by auto
    then show ?thesis using 1(1) False by auto
  qed
next
  case (2 self s)
  then show ?case by simp
next
  case (3 self dep deps s)
  then show ?case by auto
qed

lemma lookup_all_ran: "lookup_all d ks = Some vs \<Longrightarrow> set vs \<subseteq> ran d"
  by (induction ks arbitrary: vs) (auto split: option.splits simp: ran_def)

lemma to_install_from:
  assumes "to_install self = Inr order" and "x \<in> set order"
  shows "x \<in> ran (r_dict (requirements self)) \<or> (\<exists>p. x \<in> set (deps_of (dependencies self) p))"
proof -
  from to_install_Inr[OF assms(1)] obtain vs where
    vs: "values_of (requirements self) = Some vs" "order = fst (schedule_each self vs ([], {}))"
    by blast
  have "set vs \<subseteq> ran (r_dict (requirements self))"
    using vs(1) lookup_all_ran by (simp add: values_of_def)
  then show ?thesis using scheduled_from(2)[of x self vs "([], {})"] assms(2) vs(2) by auto
qed

lemma to_install_same:
  assumes "\<And>x. satisfied_by (heap self' x) = satisfied_by (heap self x)"
    and "\<And>x. constraint (heap self' x) = constraint (heap self x)"
    and "dependencies self' = dependencies self"
    and "requirements self' = requirements self"
  shows "to_install self' = to_install self"
  using schedule_same(2)[of self' self, OF assms(1,2,3)] assms(4)
  by (simp add: to_install_def split: option.splits)

lemma sorted_list_of_insert:
  fixes x :: string
  shows "finite A \<Longrightarrow> sorted_list_of_set (insert x A) = insort x (sorted_list_of_set (A - {x}))"
  by (rule sorted_list_of_set_insert_remove)

lemmas admission_defs =
  add_requirement_def add_named_def record_edge_def propagate_def wheel_check_def
  link_conflict_def get_requirement_def contains_def getitem_def setitem_def lower_def
  lower_char_def deps_append_def any_wheel_def result_state_def outcome_def
  merged_extras_def sorted_list_of_insert

section \<open>The invariant of the registry\<close>

text \<open>
  The hypothesis \<open>registry_ok\<close> of the claims about the scheduler holds of the empty
  registry and after every call of \<^verbatim>\<open>add_requirement\<close>, whatever its outcome.
\<close>

lemma registry_ok_init: "registry_ok Requirements_init"
  by (simp add: registry_ok_def Requirements_init_def)

lemma registry_ok_setitem: "registry_ok R \<Longrightarrow> registry_ok (setitem R key v)"
  by (auto simp: registry_ok_def setitem_def)

lemma record_edge_requirements:
  "requirements (result_state (record_edge s parent x res)) = requirements s"
  by (simp add: record_edge_def result_state_def split: option.splits)

lemma add_named_registry_ok:
  assumes "registry_ok (requirements s)"
  shows "registry_ok (requirements (result_state (add_named s r n parent)))"
proof (cases "get_requirement s n")
  case None
  then show ?thesis
    using registry_ok_setitem[OF assms, of n r]
    by (simp add: add_named_def Let_def record_edge_requirements)
next
  case (Some ex)
  then show ?thesis
    using assms
    by (simp add: add_named_def Let_def record_edge_requirements)
       (auto simp: result_state_def)
qed

lemma add_requirement_registry_ok:
  assumes "registry_ok (requirements self)"
  shows "registry_ok (requirements (result_state
           (add_requirement Wheel self r parent extras_requested)))"
proof -
  have "registry_ok (requirements (result_state
          (add_named (propagate self r parent) r n parent)))" for n
    using add_named_registry_ok[of "propagate self r parent"] assms by simp
  then show ?thesis
    using assms
    by (auto simp: add_requirement_def Let_def result_state_def split: option.splits)
qed

section \<open>Claims about admission\<close>

text \<open>
  Throughout, an admission is a call whose requirement passes the marker filter and
  the wheel check, and whose parent, when a name is given, is registered, as the
  docstring of \<^verbatim>\<open>add_requirement\<close> requires.
\<close>

text \<open>
  C1. A requirement that is not a constraint is admitted under a name registered to
  a constraint, and its link, if it has one, is the path of the constraint's link.
  Then the registered object is promoted: its \<^verbatim>\<open>constraint\<close> flag becomes false, its
  \<^verbatim>\<open>extras\<close> become the sorted union, without duplicates, of the extras of both, and
  \<^verbatim>\<open>add_requirement\<close> returns the list of the registered object alone.
\<close>

theorem add_requirement_promotes_constraint:
  assumes "match_markers (heap self r) extras_requested"
    and "wheel_check Wheel (link (heap self r)) = None"
    and "name (heap self r) = Some n" and "n \<noteq> []"
    and "get_requirement self n = Some ex"
    and "\<not> constraint (heap self r)" and "constraint (heap self ex)"
    and "link (heap self r) = None \<or>
         (\<exists>l l'. link (heap self r) = Some l \<and> link (heap self ex) = Some l' \<and> path l = path l')"
    and "\<And>p. parent = Some p \<Longrightarrow> p \<noteq> [] \<Longrightarrow> get_requirement self p \<noteq> None"
  shows "\<exists>self'. add_requirement Wheel self r parent extras_requested = Inr ([ex], self') \<and>
           \<not> constraint (heap self' ex) \<and>
           (\<exists>xs. extras (heap self' ex) = ExtrasTuple xs \<and> sorted xs \<and> distinct xs \<and>
              set xs = elements (extras (heap self ex)) \<union> elements (extras (heap self r)))"
proof -
  let ?s = "propagate self r parent"
  let ?s1 = "?s\<lparr>heap := (heap ?s)(ex := (heap ?s ex)
               \<lparr>constraint := False,
                extras := merged_extras (extras (heap ?s ex)) (extras (heap ?s r))\<rparr>)\<rparr>"
  have nolink: "\<not> link_conflict (link (heap self r)) (link (heap self ex))"
    using assms(8) by (auto simp: link_conflict_def)
  have named: "add_requirement Wheel self r parent extras_requested = add_named ?s r n parent"
    using assms(1-4) by (simp add: add_requirement_def)
  have "add_named ?s r n parent = record_edge ?s1 parent ex [ex]"
    using assms(5-7) nolink by (simp add: add_named_def Let_def)
  moreover have "\<And>p. parent = Some p \<Longrightarrow> p \<noteq> [] \<Longrightarrow> get_requirement ?s1 p \<noteq> None"
    using assms(9) by simp
  then obtain self' where
    "record_edge ?s1 parent ex [ex] = Inr ([ex], self')" "heap self' = heap ?s1"
    using record_edge_ok[of parent ?s1 ex "[ex]"] by blast
  ultimately have "add_requirement Wheel self r parent extras_requested = Inr ([ex], self')"
    and "heap self' ex = (heap ?s ex)
               \<lparr>constraint := False,
                extras := merged_extras (extras (heap ?s ex)) (extras (heap ?s r))\<rparr>"
    using named by simp_all
  then show ?thesis
    using merged_extras_props[of "extras (heap self ex)" "extras (heap self r)"]
    by (intro exI[of _ self']) simp
qed

text \<open>
  The constraint pkg>=1.0 with the extra tests is promoted by pkg>=1.0 with the
  extras extra and docs, a dependency of x.
\<close>

theorem add_requirement_promotes_constraint_witness:
  "match_markers (heap promo_set 2) None \<and>
   wheel_check any_wheel (link (heap promo_set 2)) = None \<and>
   name (heap promo_set 2) = Some ''pkg'' \<and>
   get_requirement promo_set ''pkg'' = Some 0 \<and>
   \<not> constraint (heap promo_set 2) \<and> constraint (heap promo_set 0) \<and>
   link (heap promo_set 2) = None \<and>
   get_requirement promo_set ''x'' = Some 1 \<and>
   outcome (add_requirement any_wheel promo_set 2 (Some ''x'') None) = Inr [0] \<and>
   \<not> constraint (heap (result_state (add_requirement any_wheel promo_set 2 (Some ''x'') None)) 0) \<and>
   extras (heap (result_state (add_requirement any_wheel promo_set 2 (Some ''x'') None)) 0) =
     ExtrasTuple [''docs'', ''extra'', ''tests''] \<and>
   deps_of (dependencies (result_state (add_requirement any_wheel promo_set 2 (Some ''x'') None))) 1
     = [0]"
proof -
  have h: "match_markers (heap promo_set 2) None"
    "wheel_check any_wheel (link (heap promo_set 2)) = None"
    "name (heap promo_set 2) = Some ''pkg''" "''pkg'' \<noteq> []"
    "get_requirement promo_set ''pkg'' = Some 0"
    "\<not> constraint (heap promo_set 2)" "constraint (heap promo_set 0)"
    by (simp_all add: promo_set_def example_defs admission_defs)
  have l: "link (heap promo_set 2) = None"
    by (simp add: promo_set_def example_defs)
  have p: "get_requirement promo_set ''x'' = Some 1"
    by (simp add: promo_set_def example_defs admission_defs)
  have par: "\<And>q. Some ''x'' = Some q \<Longrightarrow> q \<noteq> [] \<Longrightarrow> get_requirement promo_set q \<noteq> None"
    using p by auto
  have ev: "outcome (add_requirement any_wheel promo_set 2 (Some ''x'') None) = Inr [0]"
    "\<not> constraint (heap (result_state (add_requirement any_wheel promo_set 2 (Some ''x'') None)) 0)"
    "extras (heap (result_state (add_requirement any_wheel promo_set 2 (Some ''x'') None)) 0) =
       ExtrasTuple [''docs'', ''extra'', ''tests'']"
    "deps_of (dependencies (result_state (add_requirement any_wheel promo_set 2 (Some ''x'') None))) 1
       = [0]"
    by (simp_all add: promo_set_def example_defs admission_defs Let_def)
  show ?thesis
    using add_requirement_promotes_constraint[OF h(1-7) disjI1[OF l] par, of "Some ''x''"]
      h l p ev
    by simp
qed

text \<open>
  The double-requirement test of lines 164-167. A direct requirement (no parent name)
  is admitted under a name held by a registered requirement that is not a constraint,
  whose extras are equal to its own under \<^verbatim>\<open>==\<close>, with another specifier. Then
  \<^verbatim>\<open>add_requirement\<close> raises the double-requirement error and the registry, the
  aliases, the unnamed requirements, the cleanup list, the dependencies and every
  object but the incoming one are as before. With a parent name, no admission, in any
  state, raises this error.
\<close>

theorem add_requirement_double_requirement:
  assumes "match_markers (heap self r) extras_requested"
    and "wheel_check Wheel (link (heap self r)) = None"
    and "name (heap self r) = Some n" and "n \<noteq> []"
    and "get_requirement self n = Some ex"
    and "\<not> constraint (heap self ex)"
    and "extras (heap self ex) = extras (heap self r)"
    and "specifier (heap self ex) \<noteq> specifier (heap self r)"
  shows "(\<exists>self'. add_requirement Wheel self r None extras_requested =
                    Inl (DoubleRequirement, self') \<and>
            requirements self' = requirements self \<and>
            requirement_aliases self' = requirement_aliases self \<and>
            unnamed_requirements self' = unnamed_requirements self \<and>
            reqs_to_cleanup self' = reqs_to_cleanup self \<and>
            dependencies self' = dependencies self \<and>
            (\<forall>x. x \<noteq> r \<longrightarrow> heap self' x = heap self x)) \<and>
         add_requirement Wheel self2 r2 (Some p) extras_requested2 \<noteq>
           Inl (DoubleRequirement, self2')"
proof -
  let ?s = "propagate self r None"
  have "add_requirement Wheel self r None extras_requested = add_named ?s r n None"
    using assms(1-4) by (simp add: add_requirement_def)
  also have "\<dots> = Inl (DoubleRequirement, ?s)"
    using assms(5-8) by (simp add: add_named_def Let_def)
  finally have first: "add_requirement Wheel self r None extras_requested =
      Inl (DoubleRequirement, ?s)" .
  have second: "add_requirement Wheel self2 r2 (Some p) extras_requested2 \<noteq>
      Inl (DoubleRequirement, self2')"
    by (rule add_requirement_not_double)
  show ?thesis using first second by (simp add: propagate_heap_other)
qed

text \<open>
  pkg==2.0 after pkg==1.0, both direct, is refused; as a dependency of x it is merged.
\<close>

theorem add_requirement_double_requirement_witness:
  "match_markers (heap dup_set 2) None \<and>
   wheel_check any_wheel (link (heap dup_set 2)) = None \<and>
   name (heap dup_set 2) = Some ''pkg'' \<and>
   get_requirement dup_set ''pkg'' = Some 0 \<and>
   \<not> constraint (heap dup_set 0) \<and>
   extras (heap dup_set 0) = extras (heap dup_set 2) \<and>
   specifier (heap dup_set 0) \<noteq> specifier (heap dup_set 2) \<and>
   outcome (add_requirement any_wheel dup_set 2 None None) = Inl DoubleRequirement \<and>
   requirements (result_state (add_requirement any_wheel dup_set 2 None None)) =
     requirements dup_set \<and>
   heap (result_state (add_requirement any_wheel dup_set 2 None None)) 0 = heap dup_set 0 \<and>
   outcome (add_requirement any_wheel dup_set 2 (Some ''x'') None) = Inr []"
proof -
  have h: "match_markers (heap dup_set 2) None"
    "wheel_check any_wheel (link (heap dup_set 2)) = None"
    "name (heap dup_set 2) = Some ''pkg''" "''pkg'' \<noteq> []"
    "get_requirement dup_set ''pkg'' = Some 0"
    "\<not> constraint (heap dup_set 0)"
    "extras (heap dup_set 0) = extras (heap dup_set 2)"
    "specifier (heap dup_set 0) \<noteq> specifier (heap dup_set 2)"
    by (simp_all add: dup_set_def example_defs admission_defs)
  have ev: "outcome (add_requirement any_wheel dup_set 2 None None) = Inl DoubleRequirement"
    "requirements (result_state (add_requirement any_wheel dup_set 2 None None)) =
       requirements dup_set"
    "heap (result_state (add_requirement any_wheel dup_set 2 None None)) 0 = heap dup_set 0"
    "outcome (add_requirement any_wheel dup_set 2 (Some ''x'') None) = Inr []"
    by (simp_all add: dup_set_def example_defs admission_defs Let_def)
  show ?thesis
    using add_requirement_double_requirement[OF h] h ev
    by simp
qed

text \<open>
  C2. A direct requirement admitted under a name held by a registered requirement
  that is not a constraint, with the same extras and another specifier, is to be
  refused with the double-requirement error. The code misses the case of a registered
  object that was promoted. The constraint pkg==1.0 is admitted and then promoted by
  the requirement pkg==1.0: line 193 leaves the empty tuple as its extras. The direct
  requirement pkg==2.0 carries the empty set; \<^verbatim>\<open>==\<close> between a tuple and a set is
  false, the test of line 166 does not fire, and the call returns the empty list, the
  registered specifier staying ==1.0. With no constraint before them the same two
  requirements are refused.
\<close>

theorem double_requirement_missed_after_promotion:
  "outcome (add_requirement any_wheel pin_set 0 None None) = Inr [0] \<and>
   outcome (add_requirement any_wheel pinned_set 1 None None) = Inr [0] \<and>
   get_requirement promoted_set ''pkg'' = Some 0 \<and>
   \<not> constraint (heap promoted_set 0) \<and>
   extras (heap promoted_set 0) = ExtrasTuple [] \<and>
   extras (heap promoted_set 2) = ExtrasSet {||} \<and>
   elements (extras (heap promoted_set 0)) = elements (extras (heap promoted_set 2)) \<and>
   specifier (heap promoted_set 0) = ''==1.0'' \<and>
   specifier (heap promoted_set 2) = ''==2.0'' \<and>
   outcome (add_requirement any_wheel promoted_set 2 None None) = Inr [] \<and>
   outcome (add_requirement any_wheel unpinned_set 2 None None) = Inl DoubleRequirement \<and>
   specifier (heap (result_state (add_requirement any_wheel promoted_set 2 None None)) 0) = ''==1.0''"
  by (simp add: promoted_set_def pinned_set_def unpinned_set_def pin_set_def example_defs admission_defs Let_def)

text \<open>
  C4, as the code has it. A requirement that is not a constraint and carries a link
  is admitted under a name registered to a constraint that has no link or a link with
  another path. Then the incoming object is appended to \<^verbatim>\<open>reqs_to_cleanup\<close>,
  \<^verbatim>\<open>add_requirement\<close> raises the constraint error, and the registered object is
  unchanged, its \<^verbatim>\<open>constraint\<close> flag still true; registry, aliases and dependencies
  are as before.
\<close>

theorem add_requirement_constraint_conflict:
  assumes "match_markers (heap self r) extras_requested"
    and "wheel_check Wheel (link (heap self r)) = None"
    and "name (heap self r) = Some n" and "n \<noteq> []"
    and "get_requirement self n = Some ex"
    and "\<not> constraint (heap self r)" and "constraint (heap self ex)"
    and "link (heap self r) = Some l"
    and "\<And>l'. link (heap self ex) = Some l' \<Longrightarrow> path l' \<noteq> path l"
  shows "\<exists>self'. add_requirement Wheel self r parent extras_requested =
                    Inl (ConstraintConflict, self') \<and>
           reqs_to_cleanup self' = reqs_to_cleanup self @ [r] \<and>
           constraint (heap self' ex) \<and> heap self' ex = heap self ex \<and>
           requirements self' = requirements self \<and>
           requirement_aliases self' = requirement_aliases self \<and>
           dependencies self' = dependencies self"
proof -
  let ?s = "propagate self r parent"
  have ne: "ex \<noteq> r" using assms(6,7) by auto
  have conflict: "link_conflict (link (heap self r)) (link (heap self ex))"
    using assms(8,9) by (auto simp: link_conflict_def split: option.splits)
  have "add_requirement Wheel self r parent extras_requested = add_named ?s r n parent"
    using assms(1-4) by (simp add: add_requirement_def)
  also have "\<dots> = Inl (ConstraintConflict, ?s\<lparr>reqs_to_cleanup := reqs_to_cleanup ?s @ [r]\<rparr>)"
    using assms(5-7) conflict by (simp add: add_named_def Let_def)
  finally show ?thesis using assms(7) ne by (simp add: propagate_heap_other)
qed

text \<open>
  pkg from /tmp/pkg cannot promote the constraint pkg bound to /src/pkg.
\<close>

theorem add_requirement_constraint_conflict_witness:
  "match_markers (heap conflict_set 1) None \<and>
   wheel_check any_wheel (link (heap conflict_set 1)) = None \<and>
   name (heap conflict_set 1) = Some ''pkg'' \<and>
   get_requirement conflict_set ''pkg'' = Some 0 \<and>
   \<not> constraint (heap conflict_set 1) \<and> constraint (heap conflict_set 0) \<and>
   link (heap conflict_set 1) = Some (source_link ''file:///tmp/pkg'' ''/tmp/pkg'') \<and>
   link (heap conflict_set 0) = Some (source_link ''file:///src/pkg'' ''/src/pkg'') \<and>
   outcome (add_requirement any_wheel conflict_set 1 None None) = Inl ConstraintConflict \<and>
   reqs_to_cleanup (result_state (add_requirement any_wheel conflict_set 1 None None)) = [1] \<and>
   constraint (heap (result_state (add_requirement any_wheel conflict_set 1 None None)) 0)"
proof -
  have h: "match_markers (heap conflict_set 1) None"
    "wheel_check any_wheel (link (heap conflict_set 1)) = None"
    "name (heap conflict_set 1) = Some ''pkg''" "''pkg'' \<noteq> []"
    "get_requirement conflict_set ''pkg'' = Some 0"
    "\<not> constraint (heap conflict_set 1)" "constraint (heap conflict_set 0)"
    "link (heap conflict_set 1) = Some (source_link ''file:///tmp/pkg'' ''/tmp/pkg'')"
    by (simp_all add: conflict_set_def example_defs admission_defs source_link_def)
  have l0: "link (heap conflict_set 0) = Some (source_link ''file:///src/pkg'' ''/src/pkg'')"
    by (simp add: conflict_set_def example_defs)
  have differ: "\<And>l'. link (heap conflict_set 0) = Some l' \<Longrightarrow>
      path l' \<noteq> path (source_link ''file:///tmp/pkg'' ''/tmp/pkg'')"
    using l0 by (auto simp: source_link_def)
  have ev: "outcome (add_requirement any_wheel conflict_set 1 None None) = Inl ConstraintConflict"
    "reqs_to_cleanup (result_state (add_requirement any_wheel conflict_set 1 None None)) = [1]"
    "constraint (heap (result_state (add_requirement any_wheel conflict_set 1 None None)) 0)"
    by (simp_all add: conflict_set_def example_defs admission_defs source_link_def Let_def)
  show ?thesis
    using add_requirement_constraint_conflict[OF h differ, of None] h l0 ev
    by simp
qed

text \<open>
  The claim as stated, for every link that is not the link of the constraint, fails
  where the two links differ and their paths are equal: the archive of another host
  promotes the constraint, no error is raised and nothing joins the cleanup list.
\<close>

theorem add_requirement_constraint_conflict_counterexample:
  "link (heap mirror_set 1) \<noteq> link (heap mirror_set 0) \<and>
   \<not> constraint (heap mirror_set 1) \<and> constraint (heap mirror_set 0) \<and>
   get_requirement mirror_set ''pkg'' = Some 0 \<and>
   outcome (add_requirement any_wheel mirror_set 1 None None) = Inr [0] \<and>
   reqs_to_cleanup (result_state (add_requirement any_wheel mirror_set 1 None None)) = [] \<and>
   \<not> constraint (heap (result_state (add_requirement any_wheel mirror_set 1 None None)) 0)"
  by (simp add: mirror_set_def example_defs admission_defs source_link_def Let_def)

text \<open>
  C9, as the code has it. A requirement without a name (\<^verbatim>\<open>None\<close> or the empty string) is
  appended to \<^verbatim>\<open>unnamed_requirements\<close> and returned alone; the registry, the aliases and
  the dependencies are as before, so that it takes no part in the merging by name.
  The admission does not put it into the order: \<^verbatim>\<open>_to_install\<close> computes what it
  computed before, and an object that is neither a value of the registry nor a
  recorded dependency is not in the order.
\<close>

theorem add_requirement_unnamed:
  assumes "match_markers (heap self r) extras_requested"
    and "wheel_check Wheel (link (heap self r)) = None"
    and "name (heap self r) = None \<or> name (heap self r) = Some []"
  shows "\<exists>self'. add_requirement Wheel self r parent extras_requested = Inr ([r], self') \<and>
           unnamed_requirements self' = unnamed_requirements self @ [r] \<and>
           requirements self' = requirements self \<and>
           requirement_aliases self' = requirement_aliases self \<and>
           dependencies self' = dependencies self \<and>
           to_install self' = to_install self \<and>
           (r \<notin> ran (r_dict (requirements self)) \<and>
            (\<forall>p. r \<notin> set (deps_of (dependencies self) p)) \<longrightarrow>
              (\<forall>order. to_install self' = Inr order \<longrightarrow> r \<notin> set order))"
proof -
  let ?s = "propagate self r parent"
  let ?s' = "?s\<lparr>unnamed_requirements := unnamed_requirements ?s @ [r]\<rparr>"
  have res: "add_requirement Wheel self r parent extras_requested = Inr ([r], ?s')"
    using assms by (auto simp: add_requirement_def Let_def)
  have same: "to_install ?s' = to_install self"
    by (rule to_install_same) simp_all
  have "r \<notin> set order"
    if "r \<notin> ran (r_dict (requirements self))" "\<forall>p. r \<notin> set (deps_of (dependencies self) p)"
      "to_install ?s' = Inr order" for order
    using to_install_from[of self order r] that same by auto
  then show ?thesis using res same by (intro exI[of _ ?s']) simp
qed

text \<open>
  The requirement given by a path joins the unnamed requirements; the order is a
  alone, before and after.
\<close>

theorem add_requirement_unnamed_witness:
  "match_markers (heap url_set 0) None \<and>
   wheel_check any_wheel (link (heap url_set 0)) = None \<and>
   name (heap url_set 0) = None \<and>
   0 \<notin> ran (r_dict (requirements url_set)) \<and>
   (\<forall>p. 0 \<notin> set (deps_of (dependencies url_set) p)) \<and>
   to_install url_set = Inr [1] \<and>
   outcome (add_requirement any_wheel url_set 0 None None) = Inr [0] \<and>
   unnamed_requirements (result_state (add_requirement any_wheel url_set 0 None None)) = [0] \<and>
   requirements (result_state (add_requirement any_wheel url_set 0 None None)) =
     requirements url_set \<and>
   to_install (result_state (add_requirement any_wheel url_set 0 None None)) = Inr [1]"
proof -
  have h: "match_markers (heap url_set 0) None"
    "wheel_check any_wheel (link (heap url_set 0)) = None"
    by (simp_all add: url_set_def example_defs admission_defs source_link_def)
  have n: "name (heap url_set 0) = None"
    by (simp add: url_set_def example_defs)
  have r: "0 \<notin> ran (r_dict (requirements url_set))"
    by (auto simp: url_set_def example_defs ran_def split: if_splits)
  have d: "\<forall>p. 0 \<notin> set (deps_of (dependencies url_set) p)"
    by (simp add: url_set_def example_defs)
  have ord: "to_install url_set = Inr [1]"
    by (simp add: url_set_def example_defs)
  have ev: "outcome (add_requirement any_wheel url_set 0 None None) = Inr [0]"
    "unnamed_requirements (result_state (add_requirement any_wheel url_set 0 None None)) = [0]"
    "requirements (result_state (add_requirement any_wheel url_set 0 None None)) =
       requirements url_set"
    by (simp_all add: url_set_def example_defs admission_defs source_link_def Let_def)
  obtain s' where s': "add_requirement any_wheel url_set 0 None None = Inr ([0], s')"
    "to_install s' = to_install url_set"
    using add_requirement_unnamed[OF h disjI1[OF n], of None] by blast
  have "to_install (result_state (add_requirement any_wheel url_set 0 None None)) = Inr [1]"
    using s' ord by (simp add: result_state_def)
  then show ?thesis using h n r d ord ev by simp
qed

text \<open>
  The claim as stated fails in its last part: after its admission the unnamed
  requirement is not in the computed order.
\<close>

theorem add_requirement_unnamed_counterexample:
  "name (heap url_set 0) = None \<and>
   outcome (add_requirement any_wheel url_set 0 None None) = Inr [0] \<and>
   unnamed_requirements (result_state (add_requirement any_wheel url_set 0 None None)) = [0] \<and>
   to_install (result_state (add_requirement any_wheel url_set 0 None None)) = Inr [1] \<and>
   0 \<notin> set [1 :: ref]"
  by (simp add: url_set_def example_defs admission_defs source_link_def Let_def)




end
